theory Spec2Isabelle
  imports Main
begin

section \<open>Strings and character classes\<close>

text \<open>
  A JavaScript string is modelled as a HOL \<open>string\<close>, one \<open>char\<close> per code unit.
  The character classes below are those of the regular expressions of
  \<open>Tokenizer.ts\<close> on the code units below 256: \<open>\s\<close> (with the no-break space),
  \<open>\w\<close>, \<open>[0-9]\<close>, \<open>.\<close>.
\<close>

definition isSpace :: "char \<Rightarrow> bool" where
  "isSpace c = (c \<in> set [CHR 0x09, CHR 0x0A, CHR 0x0B, CHR 0x0C, CHR 0x0D, CHR 0x20, CHR 0xA0])"

definition lowers :: string where
  "lowers = ''abcdefghijklmnopqrstuvwxyz''"

definition uppers :: string where
  "uppers = ''ABCDEFGHIJKLMNOPQRSTUVWXYZ''"

definition digits :: string where
  "digits = ''0123456789''"

definition isDigit :: "char \<Rightarrow> bool" where
  "isDigit c = (c \<in> set digits)"

definition isWordChar :: "char \<Rightarrow> bool" where
  "isWordChar c = (c \<in> set lowers \<or> c \<in> set uppers \<or> c \<in> set digits \<or> c = CHR ''_'')"

text \<open>The dot of a regular expression without the \<open>s\<close> flag: any character but a line terminator.\<close>

definition isDot :: "char \<Rightarrow> bool" where
  "isDot c = (c \<noteq> CHR 0x0A \<and> c \<noteq> CHR 0x0D)"

text \<open>
  Letter case. \<open>upc\<close> is the canonical form under which the flag \<open>i\<close> compares two
  code units: the upper-case letter for a lower-case letter, ASCII or Latin-1, and the
  code unit itself otherwise. The sharp s stays, because its upper case is two code
  units; so do the micro sign and the y with diaeresis, whose upper case lies above 255
  and is the canonical form of no other code unit below 256.
\<close>

definition isAscii :: "char \<Rightarrow> bool" where
  "isAscii c = (\<not> digit7 c)"

definition latinLowers :: string where
  "latinLowers =
     [CHR 0xE0, CHR 0xE1, CHR 0xE2, CHR 0xE3, CHR 0xE4, CHR 0xE5, CHR 0xE6, CHR 0xE7,
      CHR 0xE8, CHR 0xE9, CHR 0xEA, CHR 0xEB, CHR 0xEC, CHR 0xED, CHR 0xEE, CHR 0xEF,
      CHR 0xF0, CHR 0xF1, CHR 0xF2, CHR 0xF3, CHR 0xF4, CHR 0xF5, CHR 0xF6, CHR 0xF8,
      CHR 0xF9, CHR 0xFA, CHR 0xFB, CHR 0xFC, CHR 0xFD, CHR 0xFE]"

definition latinUppers :: string where
  "latinUppers =
     [CHR 0xC0, CHR 0xC1, CHR 0xC2, CHR 0xC3, CHR 0xC4, CHR 0xC5, CHR 0xC6, CHR 0xC7,
      CHR 0xC8, CHR 0xC9, CHR 0xCA, CHR 0xCB, CHR 0xCC, CHR 0xCD, CHR 0xCE, CHR 0xCF,
      CHR 0xD0, CHR 0xD1, CHR 0xD2, CHR 0xD3, CHR 0xD4, CHR 0xD5, CHR 0xD6, CHR 0xD8,
      CHR 0xD9, CHR 0xDA, CHR 0xDB, CHR 0xDC, CHR 0xDD, CHR 0xDE]"

definition upc :: "char \<Rightarrow> char" where
  "upc c = (case map_of (zip (lowers @ latinLowers) (uppers @ latinUppers)) c of
              Some u \<Rightarrow> u
            | None \<Rightarrow> c)"

text \<open>
  \<open>String.prototype.toUpperCase\<close>, code unit by code unit: a lower-case letter becomes
  its upper-case letter and the sharp s becomes \<open>SS\<close>. The upper case of the micro sign
  and of the y with diaeresis is no code unit below 256; these two are left in place
  here, and the statements that upper-case a text of the input keep to configurations
  with ASCII keywords, which match neither.
\<close>

definition sharpS :: char where
  "sharpS = CHR 0xDF"

definition toUpperCase :: "string \<Rightarrow> string" where
  "toUpperCase s = concat (map (\<lambda>c. if c = sharpS then ''SS'' else [upc c]) s)"

text \<open>lodash \<open>trimEnd\<close> and \<open>String.prototype.trim\<close>.\<close>

definition trimEnd :: "string \<Rightarrow> string" where
  "trimEnd s = rev (dropWhile isSpace (rev s))"

definition trim :: "string \<Rightarrow> string" where
  "trim s = dropWhile isSpace (trimEnd s)"

section \<open>Regular expressions\<close>

text \<open>
  The fragment of JavaScript regular expressions that \<open>Tokenizer.ts\<close> uses, with the
  backtracking semantics of the language: a matcher maps a position to the list of all
  positions where the match can end, in the order in which backtracking tries them.
  A position is the remaining input together with a flag saying whether the character
  before it is a word character (for \<open>\b\<close>). Every expression of the tokenizer is
  anchored with \<open>^\<close>, so it is only ever run from the start of the input.
\<close>

datatype rx =
    Eps
  | Sym "char \<Rightarrow> bool"
  | Seq rx rx
  | Alt rx rx
  | Star rx
  | LazyStar rx
  | Eol
  | Wb

type_synonym pos = "bool \<times> string"

text \<open>
  \<open>r*\<close> and \<open>r*?\<close>: an iteration that consumes nothing is rejected, as the language
  prescribes, so at most one iteration per remaining character takes place; the second
  argument counts them down.
\<close>

primrec iterGreedy :: "(pos \<Rightarrow> pos list) \<Rightarrow> char list \<Rightarrow> pos \<Rightarrow> pos list" where
  "iterGreedy f [] x = [x]"
| "iterGreedy f (u # fuel) x =
     concat (map (iterGreedy f fuel) (filter (\<lambda>y. length (snd y) < length (snd x)) (f x))) @ [x]"

primrec iterLazy :: "(pos \<Rightarrow> pos list) \<Rightarrow> char list \<Rightarrow> pos \<Rightarrow> pos list" where
  "iterLazy f [] x = [x]"
| "iterLazy f (u # fuel) x =
     x # concat (map (iterLazy f fuel) (filter (\<lambda>y. length (snd y) < length (snd x)) (f x)))"

primrec ms :: "rx \<Rightarrow> pos \<Rightarrow> pos list" where
  "ms Eps x = [x]"
| "ms (Sym f) x = (case snd x of [] \<Rightarrow> [] | c # cs \<Rightarrow> if f c then [(isWordChar c, cs)] else [])"
| "ms (Seq a b) x = concat (map (ms b) (ms a x))"
| "ms (Alt a b) x = ms a x @ ms b x"
| "ms (Star a) x = iterGreedy (ms a) (snd x) x"
| "ms (LazyStar a) x = iterLazy (ms a) (snd x) x"
| "ms Eol x = (if snd x = [] then [x] else [])"
| "ms Wb x = (if fst x \<noteq> (case snd x of [] \<Rightarrow> False | c # cs \<Rightarrow> isWordChar c) then [x] else [])"

text \<open>\<open>input.match(regex)\<close> for an anchored expression: the text of the first match, if any.\<close>

definition rxMatch :: "rx \<Rightarrow> string \<Rightarrow> string option" where
  "rxMatch r s = (case ms r (False, s) of [] \<Rightarrow> None
                  | x # xs \<Rightarrow> Some (take (length s - length (snd x)) s))"

text \<open>
  Building blocks: a character, a literal, their forms under the flag \<open>i\<close> (two code
  units match when their canonical forms agree), \<open>r+\<close>, \<open>r?\<close>, \<open>a|b|c\<close>.
\<close>

definition Chr :: "char \<Rightarrow> rx" where
  "Chr c = Sym (\<lambda>d. d = c)"

definition ChrI :: "char \<Rightarrow> rx" where
  "ChrI c = Sym (\<lambda>d. upc d = upc c)"

definition NotIn :: "string \<Rightarrow> rx" where
  "NotIn cs = Sym (\<lambda>d. d \<notin> set cs)"

definition seqs :: "rx list \<Rightarrow> rx" where
  "seqs rs = foldr Seq rs Eps"

definition Lit :: "string \<Rightarrow> rx" where
  "Lit s = seqs (map Chr s)"

definition LitI :: "string \<Rightarrow> rx" where
  "LitI s = seqs (map ChrI s)"

definition Plus :: "rx \<Rightarrow> rx" where
  "Plus r = Seq r (Star r)"

definition Opt :: "rx \<Rightarrow> rx" where
  "Opt r = Alt r Eps"

text \<open>
  \<open>xs.join('|')\<close> as a pattern: the alternatives in order; the empty list joins to the
  empty pattern, which matches the empty string.
\<close>

fun alts :: "rx list \<Rightarrow> rx" where
  "alts [] = Eps"
| "alts [r] = r"
| "alts (r # rs) = Alt r (alts rs)"


section \<open>Tokens\<close>

text \<open>\<open>tokenTypes\<close>: the constants for token types.\<close>

definition WHITESPACE :: string where "WHITESPACE = ''whitespace''"
definition WORD :: string where "WORD = ''word''"
definition STRING :: string where "STRING = ''string''"
definition RESERVED :: string where "RESERVED = ''reserved''"
definition RESERVED_TOPLEVEL :: string where "RESERVED_TOPLEVEL = ''reserved-toplevel''"
definition RESERVED_NEWLINE :: string where "RESERVED_NEWLINE = ''reserved-newline''"
definition OPERATOR :: string where "OPERATOR = ''operator''"
definition OPEN_PAREN :: string where "OPEN_PAREN = ''open-paren''"
definition CLOSE_PAREN :: string where "CLOSE_PAREN = ''close-paren''"
definition LINE_COMMENT :: string where "LINE_COMMENT = ''line-comment''"
definition BLOCK_COMMENT :: string where "BLOCK_COMMENT = ''block-comment''"
definition NUMBER :: string where "NUMBER = ''number''"
definition PLACEHOLDER :: string where "PLACEHOLDER = ''placeholder''"
definition COMMENT :: string where "COMMENT = ''comment''"

record Token =
  type :: string
  "value" :: string
  key :: string

text \<open>The exception a \<open>new RegExp\<close> raises on a pattern that does not parse.\<close>

datatype error = SyntaxError

section \<open>Tokenizer: the compiled matchers\<close>

text \<open>
  \<open>tokenizerConfig\<close>. Every field is optional in the source and every use of a field
  defaults a missing one to the empty list, so a missing field is the empty list here.
\<close>

record tokenizerConfig =
  reservedWords :: "string list"
  reservedToplevelWords :: "string list"
  reservedNewlineWords :: "string list"
  stringTypes :: "string list"
  openParens :: "string list"
  closeParens :: "string list"
  indexedPlaceholderTypes :: "string list"
  namedPlaceholderTypes :: "string list"
  lineCommentTypes :: "string list"
  specialWordChars :: "string list"

record Tokenizer =
  WHITESPACE_REGEX :: rx
  NUMBER_REGEX :: rx
  OPERATOR_REGEX :: rx
  BLOCK_COMMENT_REGEX :: rx
  LINE_COMMENT_REGEX :: rx
  RESERVED_TOPLEVEL_REGEX :: rx
  RESERVED_NEWLINE_REGEX :: rx
  RESERVED_PLAIN_REGEX :: rx
  WORD_REGEX :: rx
  STRING_REGEX :: rx
  OPEN_PAREN_REGEX :: rx
  CLOSE_PAREN_REGEX :: rx
  INDEXED_PLACEHOLDER_REGEX :: rx
  IDENT_NAMED_PLACEHOLDER_REGEX :: rx
  STRING_NAMED_PLACEHOLDER_REGEX :: rx

text \<open>
  The patterns are transcribed as syntax trees. The source assembles them as text; an
  entry of the configuration that goes through \<open>escapeRegExp\<close> is a literal whatever it
  contains, and an entry that is pasted in unescaped (a reserved word, a bracket
  keyword, a special word character) is read as the literal it is when it holds no
  character with a meaning in a pattern.
\<close>

definition backslash :: char where "backslash = CHR 0x5C"
definition dquote :: char where "dquote = CHR 0x22"
definition squote :: char where "squote = CHR 0x27"
definition backtick :: char where "backtick = CHR 0x60"
definition newline :: char where "newline = CHR 0x0A"

text \<open>\<open>/^(\s+)/\<close>\<close>

definition whitespaceRegex :: rx where
  "whitespaceRegex = Plus (Sym isSpace)"

text \<open>\<open>/^((-\s*)?[0-9]+(\.[0-9]+)?|0x[0-9a-fA-F]+|0b[01]+)\b/\<close>\<close>

definition numberRegex :: rx where
  "numberRegex =
     Seq (Alt (Seq (Opt (Seq (Chr CHR ''-'') (Star (Sym isSpace))))
                   (Seq (Plus (Sym isDigit)) (Opt (Seq (Chr CHR ''.'') (Plus (Sym isDigit))))))
         (Alt (Seq (Lit ''0x'') (Plus (Sym (\<lambda>c. isDigit c \<or> c \<in> set ''abcdefABCDEF''))))
              (Seq (Lit ''0b'') (Plus (Sym (\<lambda>c. c \<in> set ''01''))))))
         Wb"

text \<open>\<open>/^(!=|<>|==|<=|>=|!<|!>|\|\||::|->>|->|~~\*|~~|!~~\*|!~~|~\*|!~\*|!~|.)/\<close>\<close>

definition operatorRegex :: rx where
  "operatorRegex =
     alts (map Lit [''!='', ''<>'', ''=='', ''<='', ''>='', ''!<'', ''!>'', ''||'', ''::'',
                    ''->>'', ''->'', ''~~*'', ''~~'', ''!~~*'', ''!~~'', ''~*'', ''!~*'', ''!~'']
           @ [Sym isDot])"

text \<open>\<open>/^(\/\*[^]*?(?:\*\/|$))/\<close>\<close>

definition blockCommentRegex :: rx where
  "blockCommentRegex =
     Seq (Lit ''/*'') (Seq (LazyStar (Sym (\<lambda>c. True))) (Alt (Lit ''*/'') Eol))"

definition createLineCommentRegex :: "string list \<Rightarrow> rx" where
  "createLineCommentRegex types =
     Seq (alts (map Lit types)) (Seq (LazyStar (Sym isDot)) (Alt (Chr newline) Eol))"

text \<open>The words joined with \<open>|\<close>, each blank replaced by \<open>\s+\<close>, then \<open>\b\<close>; flag \<open>i\<close>.\<close>

definition reservedWordPattern :: "string \<Rightarrow> rx" where
  "reservedWordPattern w = seqs (map (\<lambda>c. if c = CHR '' '' then Plus (Sym isSpace) else ChrI c) w)"

definition createReservedWordRegex :: "string list \<Rightarrow> rx" where
  "createReservedWordRegex words = Seq (alts (map reservedWordPattern words)) Wb"

definition createWordRegex :: "string list \<Rightarrow> rx" where
  "createWordRegex specialChars = Plus (Sym (\<lambda>c. isWordChar c \<or> c \<in> set (concat specialChars)))"

text \<open>The five string patterns of \<open>createStringPattern\<close>, by the name of the string type.\<close>

definition quotedBody :: "string \<Rightarrow> char \<Rightarrow> rx" where
  "quotedBody excl q =
     Seq (Star (NotIn excl))
         (Seq (Star (Seq (Chr backslash) (Seq (Sym isDot) (Star (NotIn excl)))))
              (Alt (Chr q) Eol))"

definition patterns :: "(string \<times> rx) list" where
  "patterns =
     [([backtick, backtick],
         Plus (Seq (Chr backtick) (Seq (Star (NotIn [backtick])) (Alt Eol (Chr backtick))))),
      (''[]'',
         Seq (Seq (Chr CHR ''['') (Seq (Star (NotIn '']'')) (Alt Eol (Chr CHR '']''))))
             (Star (Seq (Chr CHR '']'') (Seq (Star (NotIn '']'')) (Alt Eol (Chr CHR '']'')))))),
      ([dquote, dquote],
         Plus (Seq (Chr dquote) (quotedBody [dquote, backslash] dquote))),
      ([squote, squote],
         Plus (Seq (Chr squote) (quotedBody [squote, backslash] squote))),
      ([CHR ''N'', squote, squote],
         Plus (Seq (Lit [CHR ''N'', squote]) (quotedBody [CHR ''N'', squote, backslash] squote)))]"

text \<open>A type that is not in the table contributes the empty pattern to the join.\<close>

definition createStringPattern :: "string list \<Rightarrow> rx" where
  "createStringPattern types =
     alts (map (\<lambda>t. case map_of patterns t of Some r \<Rightarrow> r | None \<Rightarrow> Eps) types)"

definition createStringRegex :: "string list \<Rightarrow> rx" where
  "createStringRegex types = createStringPattern types"

definition escapeParen :: "string \<Rightarrow> rx" where
  "escapeParen paren = (if length paren = 1 then LitI paren else Seq Wb (Seq (LitI paren) Wb))"

definition createParenRegex :: "string list \<Rightarrow> rx" where
  "createParenRegex parens = alts (map escapeParen parens)"

definition createPlaceholderRegex :: "string list \<Rightarrow> rx \<Rightarrow> rx" where
  "createPlaceholderRegex types pattern = Seq (alts (map Lit types)) pattern"

text \<open>The constructor.\<close>

definition newTokenizer :: "tokenizerConfig \<Rightarrow> Tokenizer" where
  "newTokenizer cfg =
     \<lparr> WHITESPACE_REGEX = whitespaceRegex,
       NUMBER_REGEX = numberRegex,
       OPERATOR_REGEX = operatorRegex,
       BLOCK_COMMENT_REGEX = blockCommentRegex,
       LINE_COMMENT_REGEX = createLineCommentRegex (lineCommentTypes cfg),
       RESERVED_TOPLEVEL_REGEX = createReservedWordRegex (reservedToplevelWords cfg),
       RESERVED_NEWLINE_REGEX = createReservedWordRegex (reservedNewlineWords cfg),
       RESERVED_PLAIN_REGEX = createReservedWordRegex (reservedWords cfg),
       WORD_REGEX = createWordRegex (specialWordChars cfg),
       STRING_REGEX = createStringRegex (stringTypes cfg),
       OPEN_PAREN_REGEX = createParenRegex (openParens cfg),
       CLOSE_PAREN_REGEX = createParenRegex (closeParens cfg),
       INDEXED_PLACEHOLDER_REGEX =
         createPlaceholderRegex (indexedPlaceholderTypes cfg) (Star (Sym isDigit)),
       IDENT_NAMED_PLACEHOLDER_REGEX =
         createPlaceholderRegex (namedPlaceholderTypes cfg)
           (Plus (Sym (\<lambda>c. c \<in> set lowers \<or> c \<in> set uppers \<or> c \<in> set digits \<or> c \<in> set ''._$''))),
       STRING_NAMED_PLACEHOLDER_REGEX =
         createPlaceholderRegex (namedPlaceholderTypes cfg) (createStringPattern (stringTypes cfg)) \<rparr>"


section \<open>Tokenizer: the matching functions\<close>

text \<open>\<open>a || b\<close> on values that are a token or \<open>undefined\<close>.\<close>

definition orElse :: "'a option \<Rightarrow> 'a option \<Rightarrow> 'a option" where
  "orElse a b = (case a of Some x \<Rightarrow> Some x | None \<Rightarrow> b)"

definition getTokenOnFirstMatch :: "string \<Rightarrow> string \<Rightarrow> rx \<Rightarrow> Token option" where
  "getTokenOnFirstMatch input ty regex =
     (case rxMatch regex input of
        Some m \<Rightarrow> Some \<lparr>type = ty, value = m, key = []\<rparr>
      | None \<Rightarrow> None)"

definition getWhitespaceToken :: "Tokenizer \<Rightarrow> string \<Rightarrow> Token option" where
  "getWhitespaceToken tk input = getTokenOnFirstMatch input WHITESPACE (WHITESPACE_REGEX tk)"

definition getLineCommentToken :: "Tokenizer \<Rightarrow> string \<Rightarrow> Token option" where
  "getLineCommentToken tk input = getTokenOnFirstMatch input LINE_COMMENT (LINE_COMMENT_REGEX tk)"

definition getBlockCommentToken :: "Tokenizer \<Rightarrow> string \<Rightarrow> Token option" where
  "getBlockCommentToken tk input = getTokenOnFirstMatch input BLOCK_COMMENT (BLOCK_COMMENT_REGEX tk)"

definition getCommentToken :: "Tokenizer \<Rightarrow> string \<Rightarrow> Token option" where
  "getCommentToken tk input = orElse (getLineCommentToken tk input) (getBlockCommentToken tk input)"

definition getStringToken :: "Tokenizer \<Rightarrow> string \<Rightarrow> Token option" where
  "getStringToken tk input = getTokenOnFirstMatch input STRING (STRING_REGEX tk)"

definition getOpenParenToken :: "Tokenizer \<Rightarrow> string \<Rightarrow> Token option" where
  "getOpenParenToken tk input =
     (case getTokenOnFirstMatch input OPEN_PAREN (OPEN_PAREN_REGEX tk) of
        Some t \<Rightarrow> Some (t\<lparr>value := toUpperCase (value t)\<rparr>)
      | None \<Rightarrow> None)"

definition getCloseParenToken :: "Tokenizer \<Rightarrow> string \<Rightarrow> Token option" where
  "getCloseParenToken tk input =
     (case getTokenOnFirstMatch input CLOSE_PAREN (CLOSE_PAREN_REGEX tk) of
        Some t \<Rightarrow> Some (t\<lparr>value := toUpperCase (value t)\<rparr>)
      | None \<Rightarrow> None)"

text \<open>
  \<open>getEscapedPlaceholderKey\<close> compiles the pattern \<open>\\\<close> followed by \<open>quoteChar\<close>,
  and \<open>quoteChar\<close> is pasted in unescaped: a character with a meaning in a pattern is
  read as that, and \<open>(\<close>, \<open>)\<close>, \<open>[\<close> and a backslash leave a pattern that does not
  parse, on which \<open>new RegExp\<close> throws.
\<close>

definition escapedQuoteRegex :: "string \<Rightarrow> error + rx" where
  "escapedQuoteRegex quoteChar =
     (case quoteChar of
        [] \<Rightarrow> Inr (Chr backslash)
      | c # cs \<Rightarrow>
          if c \<in> set [CHR ''('', CHR '')'', CHR ''['', backslash] then Inl SyntaxError
          else if c = CHR ''*'' then Inr (Star (Chr backslash))
          else if c = CHR ''+'' then Inr (Plus (Chr backslash))
          else if c = CHR ''?'' then Inr (Opt (Chr backslash))
          else if c = CHR ''|'' then Inr (Alt (Chr backslash) Eps)
          else if c = CHR ''.'' then Inr (Seq (Chr backslash) (Sym isDot))
          else if c = CHR ''^'' then Inr (Seq (Chr backslash) (Sym (\<lambda>d. False)))
          else if c = CHR ''$'' then Inr (Seq (Chr backslash) Eol)
          else Inr (Seq (Chr backslash) (Chr c)))"

text \<open>
  \<open>s.replace(regex, rep)\<close> with the flag \<open>g\<close>, for a pattern without \<open>\b\<close>: every
  match from left to right is replaced; after an empty match the next character is
  copied and the search goes on behind it.
\<close>

definition matchLength :: "rx \<Rightarrow> string \<Rightarrow> nat option" where
  "matchLength r s = (case rxMatch r s of Some m \<Rightarrow> Some (length m) | None \<Rightarrow> None)"

function replaceAll :: "rx \<Rightarrow> string \<Rightarrow> string \<Rightarrow> string" where
  "replaceAll r rep s =
     (case matchLength r s of
        None \<Rightarrow> (case s of [] \<Rightarrow> [] | c # cs \<Rightarrow> c # replaceAll r rep cs)
      | Some n \<Rightarrow>
          if n = 0 \<or> length s < n then rep @ (case s of [] \<Rightarrow> [] | c # cs \<Rightarrow> c # replaceAll r rep cs)
          else rep @ replaceAll r rep (drop n s))"
  by pat_completeness auto
termination
  by (relation "measure (\<lambda>(r, rep, s). length s)") auto

declare replaceAll.simps [simp del]

definition getEscapedPlaceholderKey :: "string \<Rightarrow> string \<Rightarrow> error + string" where
  "getEscapedPlaceholderKey k quoteChar =
     (case escapedQuoteRegex quoteChar of
        Inl e \<Rightarrow> Inl e
      | Inr r \<Rightarrow> Inr (replaceAll r quoteChar k))"

text \<open>\<open>v.slice(1)\<close>, \<open>v.slice(2, -1)\<close> and \<open>v.slice(-1)\<close>.\<close>

definition slice1 :: "string \<Rightarrow> string" where
  "slice1 v = drop 1 v"

definition slice2m1 :: "string \<Rightarrow> string" where
  "slice2m1 v = drop 2 (take (length v - 1) v)"

definition sliceLast :: "string \<Rightarrow> string" where
  "sliceLast v = drop (length v - 1) v"

definition getPlaceholderTokenWithKey ::
    "string \<Rightarrow> rx \<Rightarrow> (string \<Rightarrow> error + string) \<Rightarrow> error + Token option" where
  "getPlaceholderTokenWithKey input regex parseKey =
     (case getTokenOnFirstMatch input PLACEHOLDER regex of
        None \<Rightarrow> Inr None
      | Some t \<Rightarrow>
          (case parseKey (value t) of
             Inl e \<Rightarrow> Inl e
           | Inr k \<Rightarrow> Inr (Some (t\<lparr>key := k\<rparr>))))"

definition getIdentNamedPlaceholderToken :: "Tokenizer \<Rightarrow> string \<Rightarrow> error + Token option" where
  "getIdentNamedPlaceholderToken tk input =
     getPlaceholderTokenWithKey input (IDENT_NAMED_PLACEHOLDER_REGEX tk) (\<lambda>v. Inr (slice1 v))"

definition getStringNamedPlaceholderToken :: "Tokenizer \<Rightarrow> string \<Rightarrow> error + Token option" where
  "getStringNamedPlaceholderToken tk input =
     getPlaceholderTokenWithKey input (STRING_NAMED_PLACEHOLDER_REGEX tk)
       (\<lambda>v. getEscapedPlaceholderKey (slice2m1 v) (sliceLast v))"

definition getIndexedPlaceholderToken :: "Tokenizer \<Rightarrow> string \<Rightarrow> error + Token option" where
  "getIndexedPlaceholderToken tk input =
     getPlaceholderTokenWithKey input (INDEXED_PLACEHOLDER_REGEX tk) (\<lambda>v. Inr (slice1 v))"

text \<open>\<open>a || b\<close> where evaluating \<open>a\<close> may throw: \<open>b\<close> is only evaluated when \<open>a\<close> is \<open>undefined\<close>.\<close>

definition orElseE :: "error + 'a option \<Rightarrow> error + 'a option \<Rightarrow> error + 'a option" where
  "orElseE a b = (case a of Inl e \<Rightarrow> Inl e | Inr (Some x) \<Rightarrow> Inr (Some x) | Inr None \<Rightarrow> b)"

definition getPlaceholderToken :: "Tokenizer \<Rightarrow> string \<Rightarrow> error + Token option" where
  "getPlaceholderToken tk input =
     orElseE (getIdentNamedPlaceholderToken tk input)
       (orElseE (getStringNamedPlaceholderToken tk input)
          (getIndexedPlaceholderToken tk input))"

definition getNumberToken :: "Tokenizer \<Rightarrow> string \<Rightarrow> Token option" where
  "getNumberToken tk input = getTokenOnFirstMatch input NUMBER (NUMBER_REGEX tk)"

definition getOperatorToken :: "Tokenizer \<Rightarrow> string \<Rightarrow> Token option" where
  "getOperatorToken tk input = getTokenOnFirstMatch input OPERATOR (OPERATOR_REGEX tk)"

definition getToplevelReservedToken :: "Tokenizer \<Rightarrow> string \<Rightarrow> Token option" where
  "getToplevelReservedToken tk input =
     getTokenOnFirstMatch input RESERVED_TOPLEVEL (RESERVED_TOPLEVEL_REGEX tk)"

definition getNewlineReservedToken :: "Tokenizer \<Rightarrow> string \<Rightarrow> Token option" where
  "getNewlineReservedToken tk input =
     getTokenOnFirstMatch input RESERVED_NEWLINE (RESERVED_NEWLINE_REGEX tk)"

definition getPlainReservedToken :: "Tokenizer \<Rightarrow> string \<Rightarrow> Token option" where
  "getPlainReservedToken tk input = getTokenOnFirstMatch input RESERVED (RESERVED_PLAIN_REGEX tk)"

text \<open>
  \<open>previousToken && previousToken.value && previousToken.value === '.'\<close>: there is a
  previous token and its text is exactly a dot.
\<close>

definition getReservedWordToken :: "Tokenizer \<Rightarrow> string \<Rightarrow> Token option \<Rightarrow> Token option" where
  "getReservedWordToken tk input previousToken =
     (if (case previousToken of Some p \<Rightarrow> value p = ''.'' | None \<Rightarrow> False) then None
      else (case orElse (getToplevelReservedToken tk input)
                  (orElse (getNewlineReservedToken tk input) (getPlainReservedToken tk input)) of
              Some t \<Rightarrow> Some (t\<lparr>value := toUpperCase (value t)\<rparr>)
            | None \<Rightarrow> None))"

definition getWordToken :: "Tokenizer \<Rightarrow> string \<Rightarrow> Token option" where
  "getWordToken tk input = getTokenOnFirstMatch input WORD (WORD_REGEX tk)"

definition getNextToken :: "Tokenizer \<Rightarrow> string \<Rightarrow> Token option \<Rightarrow> error + Token option" where
  "getNextToken tk input previousToken =
     orElseE (Inr (getWhitespaceToken tk input))
    (orElseE (Inr (getCommentToken tk input))
    (orElseE (Inr (getStringToken tk input))
    (orElseE (Inr (getOpenParenToken tk input))
    (orElseE (Inr (getCloseParenToken tk input))
    (orElseE (getPlaceholderToken tk input)
    (orElseE (Inr (getNumberToken tk input))
    (orElseE (Inr (getReservedWordToken tk input previousToken))
    (orElseE (Inr (getWordToken tk input))
             (Inr (getOperatorToken tk input))))))))))"

text \<open>
  \<open>tokenize\<close>: the loop runs while the input is not empty; each round asks for the next
  token and, when there is one, drops as many characters as its text is long and
  appends it. A loop that never ends has no result (\<open>None\<close>); an exception ends it
  with \<open>Inl\<close>.
\<close>

partial_function (option) tokenizeLoop ::
    "Tokenizer \<Rightarrow> string \<Rightarrow> Token option \<Rightarrow> Token list \<Rightarrow> (error + Token list) option" where
  "tokenizeLoop tk input token tokens =
     (if length input = 0 then Some (Inr tokens)
      else (case getNextToken tk input token of
              Inl e \<Rightarrow> Some (Inl e)
            | Inr None \<Rightarrow> tokenizeLoop tk input None tokens
            | Inr (Some t) \<Rightarrow> tokenizeLoop tk (drop (length (value t)) input) (Some t) (tokens @ [t])))"

declare tokenizeLoop.simps [code]

definition tokenize :: "Tokenizer \<Rightarrow> string \<Rightarrow> (error + Token list) option" where
  "tokenize tk input = tokenizeLoop tk input None []"


section \<open>Params\<close>

text \<open>
  \<open>parameters = Record<string, string> | string[]\<close>: an object with string values, as
  the list of its own keys with their values, or an array of strings.
\<close>

datatype parameters = Record "(string \<times> string) list" | Array "string list"

record Params =
  paramsP :: parameters
  indexP :: nat

text \<open>The constructor: a missing argument defaults to the empty object.\<close>

definition newParams :: "parameters option \<Rightarrow> Params" where
  "newParams ps = \<lparr> paramsP = (case ps of Some x \<Rightarrow> x | None \<Rightarrow> Record []), indexP = 0 \<rparr>"

text \<open>
  \<open>get\<close>. The result is a string or \<open>undefined\<close> (\<open>None\<close>), which is what reading an
  array behind its end gives. An object and an array are never falsy, so the first test
  of the source never returns.
\<close>

definition get :: "Params \<Rightarrow> Token \<Rightarrow> string option \<times> Params" where
  "get p token =
     (case paramsP p of
        Record kvs \<Rightarrow>
          if key token \<in> set (map fst kvs) then (map_of kvs (key token), p)
          else (Some (value token), p)
      | Array xs \<Rightarrow>
          (if indexP p < length xs then Some (xs ! indexP p) else None,
           p\<lparr>indexP := indexP p + 1\<rparr>))"

text \<open>String concatenation with a value that may be \<open>undefined\<close>.\<close>

definition jsToString :: "string option \<Rightarrow> string" where
  "jsToString v = (case v of Some x \<Rightarrow> x | None \<Rightarrow> ''undefined'')"

section \<open>Indentation and InlineBlock\<close>

text \<open>
  Modelled from the spec: the class \<open>Indentation\<close> (\<open>Indentation.ts\<close>) is missing. The
  indent state is an ordered stack of markers, each tagged clause or nesting, next to the
  indent unit.
\<close>

datatype marker = Clause | Nesting

record Indentation =
  indentI :: string
  indentTypes :: "marker list"

text \<open>
  Modelled from the spec: the constructor of \<open>Indentation\<close> is missing. The stack starts
  empty; the default indent unit is a fixed-width whitespace unit, two blanks in the
  example of the spec.
\<close>

definition newIndentation :: "string option \<Rightarrow> Indentation" where
  "newIndentation ind = \<lparr> indentI = (case ind of Some x \<Rightarrow> x | None \<Rightarrow> ''  ''), indentTypes = [] \<rparr>"

text \<open>
  Modelled from the spec: \<open>Indentation.getIndent\<close> is missing. The rendered prefix is the
  indent unit repeated once per stack entry.
\<close>

definition getIndent :: "Indentation \<Rightarrow> string" where
  "getIndent i = concat (replicate (length (indentTypes i)) (indentI i))"

text \<open>
  Modelled from the spec: \<open>Indentation.increaseToplevel\<close> is missing. It pushes a clause
  marker.
\<close>

definition increaseToplevel :: "Indentation \<Rightarrow> Indentation" where
  "increaseToplevel i = i\<lparr>indentTypes := Clause # indentTypes i\<rparr>"

text \<open>
  Modelled from the spec: \<open>Indentation.increaseBlockLevel\<close> is missing. It pushes a nesting
  marker.
\<close>

definition increaseBlockLevel :: "Indentation \<Rightarrow> Indentation" where
  "increaseBlockLevel i = i\<lparr>indentTypes := Nesting # indentTypes i\<rparr>"

text \<open>
  Modelled from the spec: \<open>Indentation.decreaseTopLevel\<close> is missing. It pops one clause
  marker if the top of the stack is one.
\<close>

definition decreaseTopLevel :: "Indentation \<Rightarrow> Indentation" where
  "decreaseTopLevel i =
     (case indentTypes i of
        Clause # rest \<Rightarrow> i\<lparr>indentTypes := rest\<rparr>
      | _ \<Rightarrow> i)"

text \<open>
  Modelled from the spec: \<open>Indentation.decreaseBlockLevel\<close> is missing. It pops down to and
  including the most recent nesting marker, discarding the clause markers above it;
  popping an empty stack does nothing.
\<close>

definition decreaseBlockLevel :: "Indentation \<Rightarrow> Indentation" where
  "decreaseBlockLevel i =
     i\<lparr>indentTypes := (case dropWhile (\<lambda>m. m = Clause) (indentTypes i) of
                          [] \<Rightarrow> []
                        | m # rest \<Rightarrow> rest)\<rparr>"

text \<open>
  Modelled from the spec: the class \<open>InlineBlock\<close> (\<open>InlineBlock.ts\<close>) is missing. Its state
  is one flag; the maximum length of an inline block is a constant that the spec does not
  give, kept as a field that the constructor receives.
\<close>

record InlineBlock =
  maxLength :: nat
  active :: bool

definition newInlineBlock :: "nat \<Rightarrow> InlineBlock" where
  "newInlineBlock mx = \<lparr> maxLength = mx, active = False \<rparr>"

text \<open>
  Modelled from the spec: the scan of \<open>InlineBlock\<close> is missing. It runs from the opening
  bracket forward to its closing bracket; there is no inlining when the span is longer
  than the maximum, or holds a line comment, a toplevel or newline reserved word or a
  nested bracket, or never closes.
\<close>

fun inlineScan :: "nat \<Rightarrow> nat \<Rightarrow> Token list \<Rightarrow> bool" where
  "inlineScan mx len [] = False"
| "inlineScan mx len (t # ts) =
     (if mx < len + length (value t) then False
      else if type t = CLOSE_PAREN then True
      else if type t \<in> set [OPEN_PAREN, LINE_COMMENT, RESERVED_TOPLEVEL, RESERVED_NEWLINE] then False
      else inlineScan mx (len + length (value t)) ts)"

definition shouldInline :: "nat \<Rightarrow> Token list \<Rightarrow> nat \<Rightarrow> bool" where
  "shouldInline mx toks openIndex =
     (case drop openIndex toks of
        [] \<Rightarrow> False
      | t # ts \<Rightarrow> if mx < length (value t) then False else inlineScan mx (length (value t)) ts)"

text \<open>
  Modelled from the spec: \<open>InlineBlock.beginIfPossible\<close> is missing. The scan is evaluated
  when a bracket opens outside an active inline block.
\<close>

definition beginIfPossible :: "InlineBlock \<Rightarrow> Token list \<Rightarrow> nat \<Rightarrow> InlineBlock" where
  "beginIfPossible b toks i =
     (if active b then b else b\<lparr>active := shouldInline (maxLength b) toks i\<rparr>)"

text \<open>Modelled from the spec: \<open>InlineBlock.isActive\<close> is missing. It reads the flag.\<close>

definition isActive :: "InlineBlock \<Rightarrow> bool" where
  "isActive b = active b"

text \<open>
  Modelled from the spec: \<open>InlineBlock.end\<close> is missing. The block stays active until its
  closing bracket is consumed.
\<close>

definition endInline :: "InlineBlock \<Rightarrow> InlineBlock" where
  "endInline b = b\<lparr>active := False\<rparr>"

section \<open>Formatter\<close>

record config =
  indent :: "string option"
  language :: "string option"
  params :: "parameters option"

record Formatter =
  cfg :: config
  indentation :: Indentation
  inlineBlock :: InlineBlock
  paramsF :: Params
  tokenizer :: Tokenizer
  previousReservedWord :: Token
  tokens :: "Token list"
  index :: nat

text \<open>
  The constructor. Its first argument is the maximum length of an inline block, which
  the missing \<open>InlineBlock\<close> fixes.
\<close>

definition newFormatter :: "nat \<Rightarrow> config \<Rightarrow> Tokenizer \<Rightarrow> Formatter" where
  "newFormatter mx c tk =
     \<lparr> cfg = c,
       indentation = newIndentation (indent c),
       inlineBlock = newInlineBlock mx,
       paramsF = newParams (params c),
       tokenizer = tk,
       previousReservedWord = \<lparr>type = [], value = [], key = []\<rparr>,
       tokens = [],
       index = 0 \<rparr>"

text \<open>\<open>this.tokens[this.index - offset] || {}\<close>: \<open>None\<close> is the empty object.\<close>

definition previousToken :: "Formatter \<Rightarrow> nat \<Rightarrow> Token option" where
  "previousToken fm offset =
     (if offset \<le> index fm \<and> index fm - offset < length (tokens fm)
      then Some (tokens fm ! (index fm - offset)) else None)"

function previousNonWhitespaceFrom :: "Formatter \<Rightarrow> nat \<Rightarrow> Token option" where
  "previousNonWhitespaceFrom fm n =
     (case previousToken fm n of
        Some t \<Rightarrow> if type t = WHITESPACE then previousNonWhitespaceFrom fm (n + 1) else Some t
      | None \<Rightarrow> None)"
  by pat_completeness auto
termination
  by (relation "measure (\<lambda>(fm, n). Suc (index fm) - n)") (auto simp: previousToken_def split: if_splits)

declare previousNonWhitespaceFrom.simps [simp del]

definition previousNonWhitespaceToken :: "Formatter \<Rightarrow> Token option" where
  "previousNonWhitespaceToken fm = previousNonWhitespaceFrom fm 1"

definition trimTrailingWhitespace :: "Formatter \<Rightarrow> string \<Rightarrow> string" where
  "trimTrailingWhitespace fm query =
     (if (case previousNonWhitespaceToken fm of Some t \<Rightarrow> type t = LINE_COMMENT | None \<Rightarrow> False)
      then trimEnd query @ [newline]
      else trimEnd query)"

definition addNewline :: "Formatter \<Rightarrow> string \<Rightarrow> string" where
  "addNewline fm query = trimEnd query @ [newline] @ getIndent (indentation fm)"

text \<open>\<open>string.replace(/\s+/g, ' ')\<close>\<close>

function equalizeWhitespace :: "string \<Rightarrow> string" where
  "equalizeWhitespace [] = []"
| "equalizeWhitespace (c # cs) =
     (if isSpace c then CHR 0x20 # equalizeWhitespace (dropWhile isSpace cs)
      else c # equalizeWhitespace cs)"
  by pat_completeness auto
termination
  by (relation "measure length") (auto simp: le_imp_less_Suc length_dropWhile_le)

text \<open>\<open>comment.replace(/\n/g, `\n${indent}`)\<close>\<close>

definition indentComment :: "Formatter \<Rightarrow> string \<Rightarrow> string" where
  "indentComment fm comment =
     concat (map (\<lambda>c. if c = newline then newline # getIndent (indentation fm) else [c]) comment)"

definition formatLineComment :: "Formatter \<Rightarrow> Token \<Rightarrow> string \<Rightarrow> string" where
  "formatLineComment fm token query = addNewline fm (query @ value token)"

definition formatBlockComment :: "Formatter \<Rightarrow> Token \<Rightarrow> string \<Rightarrow> string" where
  "formatBlockComment fm token query =
     addNewline fm (addNewline fm query @ indentComment fm (value token))"

definition formatToplevelReservedWord :: "Formatter \<Rightarrow> Token \<Rightarrow> string \<Rightarrow> string \<times> Formatter" where
  "formatToplevelReservedWord fm token query =
     (let fm1 = fm\<lparr>indentation := decreaseTopLevel (indentation fm)\<rparr>;
          q1 = addNewline fm1 query;
          fm2 = fm1\<lparr>indentation := increaseToplevel (indentation fm1)\<rparr>;
          q2 = q1 @ equalizeWhitespace (value token)
      in (addNewline fm2 q2, fm2))"

definition formatNewlineReservedWord :: "Formatter \<Rightarrow> Token \<Rightarrow> string \<Rightarrow> string" where
  "formatNewlineReservedWord fm token query =
     addNewline fm query @ equalizeWhitespace (value token) @ '' ''"

definition formatWithSpaces :: "Token \<Rightarrow> string \<Rightarrow> string" where
  "formatWithSpaces token query = query @ value token @ '' ''"

definition formatWithSpaceAfter :: "Formatter \<Rightarrow> Token \<Rightarrow> string \<Rightarrow> string" where
  "formatWithSpaceAfter fm token query = trimTrailingWhitespace fm query @ value token @ '' ''"

definition formatWithoutSpaces :: "Formatter \<Rightarrow> Token \<Rightarrow> string \<Rightarrow> string" where
  "formatWithoutSpaces fm token query = trimTrailingWhitespace fm query @ value token"

definition formatQuerySeparator :: "Formatter \<Rightarrow> Token \<Rightarrow> string \<Rightarrow> string" where
  "formatQuerySeparator fm token query =
     trimTrailingWhitespace fm query @ [newline] @ value token @ [newline]"

definition formatOpeningParentheses :: "Formatter \<Rightarrow> Token \<Rightarrow> string \<Rightarrow> string \<times> Formatter" where
  "formatOpeningParentheses fm token query =
     (let q1 = (if (case previousToken fm 1 of
                      Some p \<Rightarrow> type p \<in> set [WHITESPACE, OPEN_PAREN, LINE_COMMENT]
                    | None \<Rightarrow> False)
                then query else trimEnd query);
          q2 = q1 @ value token;
          fm1 = fm\<lparr>inlineBlock := beginIfPossible (inlineBlock fm) (tokens fm) (index fm)\<rparr>
      in if \<not> isActive (inlineBlock fm1)
         then (let fm2 = fm1\<lparr>indentation := increaseBlockLevel (indentation fm1)\<rparr>
               in (addNewline fm2 q2, fm2))
         else (q2, fm1))"

definition formatClosingParentheses :: "Formatter \<Rightarrow> Token \<Rightarrow> string \<Rightarrow> string \<times> Formatter" where
  "formatClosingParentheses fm token query =
     (if isActive (inlineBlock fm)
      then (let fm1 = fm\<lparr>inlineBlock := endInline (inlineBlock fm)\<rparr>
            in (formatWithSpaceAfter fm1 token query, fm1))
      else (let fm1 = fm\<lparr>indentation := decreaseBlockLevel (indentation fm)\<rparr>
            in (formatWithSpaces token (addNewline fm1 query), fm1)))"

definition formatPlaceholder :: "Formatter \<Rightarrow> Token \<Rightarrow> string \<Rightarrow> string \<times> Formatter" where
  "formatPlaceholder fm token query =
     (let r = get (paramsF fm) token
      in (query @ jsToString (fst r) @ '' '', fm\<lparr>paramsF := snd r\<rparr>))"

text \<open>\<open>/^LIMIT$/i\<close>\<close>

definition limitRegex :: rx where
  "limitRegex = Seq (LitI ''LIMIT'') Eol"

definition formatComma :: "Formatter \<Rightarrow> Token \<Rightarrow> string \<Rightarrow> string" where
  "formatComma fm token query =
     (let q = trimTrailingWhitespace fm query @ value token @ '' ''
      in if isActive (inlineBlock fm) then q
         else if rxMatch limitRegex (value (previousReservedWord fm)) \<noteq> None then q
         else addNewline fm q)"

text \<open>The callback of \<open>this.tokens.forEach\<close> in \<open>getFormattedQueryFromTokens\<close>.\<close>

definition formatToken :: "Formatter \<Rightarrow> Token \<Rightarrow> nat \<Rightarrow> string \<Rightarrow> string \<times> Formatter" where
  "formatToken fm0 token i formattedQuery =
     (let fm = fm0\<lparr>index := i\<rparr>
      in if type token = WHITESPACE then (formattedQuery, fm)
         else if type token = LINE_COMMENT then (formatLineComment fm token formattedQuery, fm)
         else if type token = BLOCK_COMMENT then (formatBlockComment fm token formattedQuery, fm)
         else if type token = RESERVED_TOPLEVEL then
           (let r = formatToplevelReservedWord fm token formattedQuery
            in (fst r, (snd r)\<lparr>previousReservedWord := token\<rparr>))
         else if type token = RESERVED_NEWLINE then
           (formatNewlineReservedWord fm token formattedQuery, fm\<lparr>previousReservedWord := token\<rparr>)
         else if type token = RESERVED then
           (formatWithSpaces token formattedQuery, fm\<lparr>previousReservedWord := token\<rparr>)
         else if type token = OPEN_PAREN then formatOpeningParentheses fm token formattedQuery
         else if type token = CLOSE_PAREN then formatClosingParentheses fm token formattedQuery
         else if type token = PLACEHOLDER then formatPlaceholder fm token formattedQuery
         else if value token = '','' then (formatComma fm token formattedQuery, fm)
         else if value token = '':'' then (formatWithSpaceAfter fm token formattedQuery, fm)
         else if value token = ''.'' then (formatWithoutSpaces fm token formattedQuery, fm)
         else if value token = '';'' then (formatQuerySeparator fm token formattedQuery, fm)
         else (formatWithSpaces token formattedQuery, fm))"

fun forEachToken :: "Formatter \<Rightarrow> Token list \<Rightarrow> nat \<Rightarrow> string \<Rightarrow> string \<times> Formatter" where
  "forEachToken fm [] i formattedQuery = (formattedQuery, fm)"
| "forEachToken fm (token # rest) i formattedQuery =
     (let r = formatToken fm token i formattedQuery
      in forEachToken (snd r) rest (Suc i) (fst r))"

definition getFormattedQueryFromTokens :: "Formatter \<Rightarrow> string \<times> Formatter" where
  "getFormattedQueryFromTokens fm = forEachToken fm (tokens fm) 0 []"

text \<open>
  \<open>format\<close>: the result is the formatted text with the formatter as the call leaves it,
  an exception, or nothing when the tokenizer does not return.
\<close>

definition format :: "Formatter \<Rightarrow> string \<Rightarrow> (error + string \<times> Formatter) option" where
  "format fm query =
     (case tokenize (tokenizer fm) query of
        None \<Rightarrow> None
      | Some (Inl e) \<Rightarrow> Some (Inl e)
      | Some (Inr ts) \<Rightarrow>
          (let r = getFormattedQueryFromTokens (fm\<lparr>tokens := ts\<rparr>)
           in Some (Inr (trim (fst r), snd r))))"

section \<open>Notions used in the statements and their proofs\<close>

text \<open>
  The dialect tables are not part of the core; this small configuration in the style of
  the standard dialect serves for the examples.
\<close>

definition exampleConfig :: tokenizerConfig where
  "exampleConfig =
     \<lparr> reservedWords = [''AS'', ''END''],
       reservedToplevelWords = [''SELECT'', ''FROM'', ''WHERE'', ''LIMIT''],
       reservedNewlineWords = [''AND''],
       stringTypes = [[dquote, dquote]],
       openParens = [''('', ''CASE''],
       closeParens = ['')'', ''END''],
       indexedPlaceholderTypes = [''?''],
       namedPlaceholderTypes = [''@''],
       lineCommentTypes = [''--''],
       specialWordChars = [] \<rparr>"

definition exampleFormatter :: "parameters option \<Rightarrow> Formatter" where
  "exampleFormatter ps =
     newFormatter 50 \<lparr>indent = None, language = None, params = ps\<rparr> (newTokenizer exampleConfig)"

text \<open>The text that a call of \<open>format\<close> returns, without the formatter it leaves.\<close>

definition formatText :: "Formatter \<Rightarrow> string \<Rightarrow> (error + string) option" where
  "formatText fm query = map_option (map_sum id fst) (format fm query)"

fun nullable :: "rx \<Rightarrow> bool" where
  "nullable Eps = True"
| "nullable (Sym f) = False"
| "nullable (Seq a b) = (nullable a \<and> nullable b)"
| "nullable (Alt a b) = (nullable a \<or> nullable b)"
| "nullable (Star a) = True"
| "nullable (LazyStar a) = True"
| "nullable Eol = True"
| "nullable Wb = True"

definition shrinks :: "(pos \<Rightarrow> pos list) \<Rightarrow> bool" where
  "shrinks f = (\<forall>x y. y \<in> set (f x) \<longrightarrow> (\<exists>u. snd x = u @ snd y))"

definition upperCased :: "string \<Rightarrow> bool" where
  "upperCased ty = (ty \<in> set [RESERVED, RESERVED_TOPLEVEL, RESERVED_NEWLINE, OPEN_PAREN, CLOSE_PAREN])"

definition tokenText :: "Token \<Rightarrow> string \<Rightarrow> bool" where
  "tokenText t s =
     (value t = (if upperCased (type t) then toUpperCase (take (length (value t)) s)
                 else take (length (value t)) s))"

fun covers :: "Token list \<Rightarrow> string \<Rightarrow> bool" where
  "covers [] s = (s = [])"
| "covers (t # ts) s =
     (length (value t) \<le> length s \<and> tokenText t s \<and> covers ts (drop (length (value t)) s))"


text \<open>
  The configurations on which the syntax trees above are the patterns of the source, and
  on which upper-casing a keyword keeps its length: the string types are those of the
  table; a reserved word is made of ASCII word characters and blanks; a bracket is one
  ASCII character or a keyword of ASCII word characters; no special word character has
  a meaning inside a character class.
\<close>

definition literalConfig :: "tokenizerConfig \<Rightarrow> bool" where
  "literalConfig c =
     (list_all (\<lambda>t. t \<in> set (map fst patterns)) (stringTypes c)
      \<and> list_all (list_all (\<lambda>ch. isWordChar ch \<or> ch = CHR 0x20))
            (reservedWords c @ reservedToplevelWords c @ reservedNewlineWords c)
      \<and> list_all (\<lambda>p. (length p = 1 \<or> list_all isWordChar p) \<and> list_all isAscii p)
            (openParens c @ closeParens c)
      \<and> list_all (list_all (\<lambda>ch. ch \<notin> set [CHR '']'', backslash, CHR ''^'', CHR ''-'']))
            (specialWordChars c))"



text \<open>The characters a pattern can consume all satisfy \<open>P\<close>.\<close>

fun consumes :: "(char \<Rightarrow> bool) \<Rightarrow> rx \<Rightarrow> bool" where
  "consumes P Eps = True"
| "consumes P (Sym f) = (\<forall>c. f c \<longrightarrow> P c)"
| "consumes P (Seq a b) = (consumes P a \<and> consumes P b)"
| "consumes P (Alt a b) = (consumes P a \<and> consumes P b)"
| "consumes P (Star a) = consumes P a"
| "consumes P (LazyStar a) = consumes P a"
| "consumes P Eol = True"
| "consumes P Wb = True"

definition within :: "(char \<Rightarrow> bool) \<Rightarrow> (pos \<Rightarrow> pos list) \<Rightarrow> bool" where
  "within P f = (\<forall>x y. y \<in> set (f x) \<longrightarrow> (\<exists>u. snd x = u @ snd y \<and> list_all P u))"

definition asciiOrSpace :: "char \<Rightarrow> bool" where
  "asciiOrSpace c = (isAscii c \<or> isSpace c)"

definition asciiUpper :: "Tokenizer \<Rightarrow> bool" where
  "asciiUpper tk =
     (consumes asciiOrSpace (RESERVED_TOPLEVEL_REGEX tk)
      \<and> consumes asciiOrSpace (RESERVED_NEWLINE_REGEX tk)
      \<and> consumes asciiOrSpace (RESERVED_PLAIN_REGEX tk)
      \<and> consumes asciiOrSpace (OPEN_PAREN_REGEX tk)
      \<and> consumes asciiOrSpace (CLOSE_PAREN_REGEX tk))"

definition progressive :: "Tokenizer \<Rightarrow> bool" where
  "progressive tk =
     (\<not> nullable (WHITESPACE_REGEX tk) \<and> \<not> nullable (NUMBER_REGEX tk)
      \<and> \<not> nullable (OPERATOR_REGEX tk) \<and> \<not> nullable (BLOCK_COMMENT_REGEX tk)
      \<and> \<not> nullable (LINE_COMMENT_REGEX tk) \<and> \<not> nullable (RESERVED_TOPLEVEL_REGEX tk)
      \<and> \<not> nullable (RESERVED_NEWLINE_REGEX tk) \<and> \<not> nullable (RESERVED_PLAIN_REGEX tk)
      \<and> \<not> nullable (WORD_REGEX tk) \<and> \<not> nullable (STRING_REGEX tk)
      \<and> \<not> nullable (OPEN_PAREN_REGEX tk) \<and> \<not> nullable (CLOSE_PAREN_REGEX tk)
      \<and> \<not> nullable (INDEXED_PLACEHOLDER_REGEX tk)
      \<and> \<not> nullable (IDENT_NAMED_PLACEHOLDER_REGEX tk)
      \<and> \<not> nullable (STRING_NAMED_PLACEHOLDER_REGEX tk))"

definition sliceOf :: "Tokenizer \<Rightarrow> string \<Rightarrow> Token \<Rightarrow> bool" where
  "sliceOf tk input t =
     ((asciiUpper tk \<longrightarrow> length (value t) \<le> length input \<and> tokenText t input)
      \<and> (progressive tk \<longrightarrow> value t \<noteq> []))"

definition formatTwice :: "Formatter \<Rightarrow> string \<Rightarrow> (string \<times> string) option" where
  "formatTwice fm query =
     (case format fm query of
        Some (Inr r1) \<Rightarrow>
          (case format (snd r1) query of
             Some (Inr r2) \<Rightarrow> Some (fst r1, fst r2)
           | _ \<Rightarrow> None)
      | _ \<Rightarrow> None)"

definition isReservedType :: "string \<Rightarrow> bool" where
  "isReservedType ty = (ty \<in> set [RESERVED_TOPLEVEL, RESERVED_NEWLINE, RESERVED])"

definition lastReservedWord :: "Token \<Rightarrow> Token list \<Rightarrow> Token" where
  "lastReservedWord start ts = foldl (\<lambda>m t. if isReservedType (type t) then t else m) start ts"

text \<open>
  A token that directly follows a token whose text is a bare dot is not a reserved word
  of any class; the first argument is the token before the list.
\<close>

fun dotRule :: "Token option \<Rightarrow> Token list \<Rightarrow> bool" where
  "dotRule p [] = True"
| "dotRule p (t # ts) =
     ((case p of Some q \<Rightarrow> value q = ''.'' \<longrightarrow> \<not> isReservedType (type t) | None \<Rightarrow> True)
      \<and> dotRule (Some t) ts)"

text \<open>
  What one token does to the indent stack and the inline-block flag, read off the
  handlers of \<open>Formatter.ts\<close>, and the state after a list of tokens. The second
  argument is the token buffer, the last the index of the token.
\<close>

definition stateStep ::
    "Indentation \<times> InlineBlock \<Rightarrow> Token list \<Rightarrow> Token \<Rightarrow> nat \<Rightarrow> Indentation \<times> InlineBlock" where
  "stateStep s toks t i =
     (if type t = RESERVED_TOPLEVEL then (increaseToplevel (decreaseTopLevel (fst s)), snd s)
      else if type t = OPEN_PAREN then
        (if isActive (beginIfPossible (snd s) toks i) then (fst s, beginIfPossible (snd s) toks i)
         else (increaseBlockLevel (fst s), beginIfPossible (snd s) toks i))
      else if type t = CLOSE_PAREN then
        (if isActive (snd s) then (fst s, endInline (snd s)) else (decreaseBlockLevel (fst s), snd s))
      else s)"

fun printerState ::
    "Indentation \<times> InlineBlock \<Rightarrow> Token list \<Rightarrow> Token list \<Rightarrow> nat \<Rightarrow> Indentation \<times> InlineBlock" where
  "printerState s toks [] i = s"
| "printerState s toks (t # ts) i = printerState (stateStep s toks t i) toks ts (Suc i)"

definition afterFirstCall :: Formatter where
  "afterFirstCall =
     (exampleFormatter (Some (Array [''1'', ''2''])))
       \<lparr> paramsF := \<lparr>paramsP = Array [''1'', ''2''], indexP = 1\<rparr>,
         tokens := [\<lparr>type = PLACEHOLDER, value = ''?'', key = []\<rparr>] \<rparr>"

text \<open>A Formatter that an earlier call has left inside an open bracket.\<close>

definition insideBracket :: Formatter where
  "insideBracket =
     (exampleFormatter None)
       \<lparr> indentation := \<lparr>indentI = ''  '', indentTypes = [Nesting]\<rparr>,
         tokens := [\<lparr>type = OPEN_PAREN, value = ''('', key = []\<rparr>] \<rparr>"

text \<open>A Formatter that is inside an inline block.\<close>

definition insideInline :: Formatter where
  "insideInline = (exampleFormatter None) \<lparr> inlineBlock := \<lparr>maxLength = 50, active = True\<rparr> \<rparr>"

fun unescapeQuote :: "char \<Rightarrow> string \<Rightarrow> string" where
  "unescapeQuote q (a # b # cs) =
     (if a = backslash \<and> b = q then q # unescapeQuote q cs else a # unescapeQuote q (b # cs))"
| "unescapeQuote q [a] = [a]"
| "unescapeQuote q [] = []"

text \<open>The opening and the closing quote of the quoted string types.\<close>

definition quotePairs :: "(char \<times> char) list" where
  "quotePairs = [(backtick, backtick), (CHR ''['', CHR '']''), (dquote, dquote), (squote, squote)]"

definition identChar :: "char \<Rightarrow> bool" where
  "identChar c = (c \<in> set lowers \<or> c \<in> set uppers \<or> c \<in> set digits \<or> c \<in> set ''._$'')"

text \<open>The characters of a text that are not whitespace.\<close>

definition visible :: "string \<Rightarrow> string" where
  "visible s = filter (\<lambda>c. \<not> isSpace c) s"

text \<open>
  The texts that the Printer writes for a list of tokens, in order: nothing for a
  whitespace token, the parameter that \<open>Params.get\<close> returns for a placeholder, and the
  text of the token for every other kind. The first argument is the parameter source
  with its counter.
\<close>

fun printedTexts :: "Params \<Rightarrow> Token list \<Rightarrow> string list" where
  "printedTexts p [] = []"
| "printedTexts p (t # ts) =
     (if type t = WHITESPACE then printedTexts p ts
      else if type t = PLACEHOLDER then jsToString (fst (get p t)) # printedTexts (snd (get p t)) ts
      else value t # printedTexts p ts)"

text \<open>
  The text that the Printer writes for a token that is neither whitespace, a comment nor a
  placeholder: the text of the token, with every run of whitespace inside a toplevel or
  newline reserved word made one blank.
\<close>

definition written :: "Token \<Rightarrow> string" where
  "written t =
     (if type t \<in> set [RESERVED_TOPLEVEL, RESERVED_NEWLINE] then equalizeWhitespace (value t)
      else value t)"

text \<open>\<open>w\<close> occurs in \<open>out\<close> as a contiguous piece.\<close>

definition occursIn :: "string \<Rightarrow> string \<Rightarrow> bool" where
  "occursIn w out = list_ex (\<lambda>k. take (length w) (drop k out) = w) [0..<Suc (length out)]"

section \<open>Facts about the model\<close>

lemmas tokenTypes_defs =
  WHITESPACE_def WORD_def STRING_def RESERVED_def RESERVED_TOPLEVEL_def RESERVED_NEWLINE_def
  OPERATOR_def OPEN_PAREN_def CLOSE_PAREN_def LINE_COMMENT_def BLOCK_COMMENT_def NUMBER_def
  PLACEHOLDER_def COMMENT_def

lemma iterGreedy_suffix:
  "shrinks f \<Longrightarrow> y \<in> set (iterGreedy f fuel x) \<Longrightarrow> \<exists>u. snd x = u @ snd y"
proof (induction fuel arbitrary: x)
  case Nil
  then show ?case by simp
next
  case (Cons c fuel)
  from Cons.prems(2) consider "y = x"
    | z where "z \<in> set (f x)" "y \<in> set (iterGreedy f fuel z)"
    by auto
  then show ?case
  proof cases
    case 1
    then show ?thesis by simp
  next
    case 2
    from Cons.prems(1) 2(1) obtain u where u: "snd x = u @ snd z"
      unfolding shrinks_def by blast
    from Cons.IH [OF Cons.prems(1) 2(2)] obtain v where "snd z = v @ snd y" by blast
    with u have "snd x = (u @ v) @ snd y" by simp
    then show ?thesis by blast
  qed
qed

lemma iterLazy_suffix:
  "shrinks f \<Longrightarrow> y \<in> set (iterLazy f fuel x) \<Longrightarrow> \<exists>u. snd x = u @ snd y"
proof (induction fuel arbitrary: x)
  case Nil
  then show ?case by simp
next
  case (Cons c fuel)
  from Cons.prems(2) consider "y = x"
    | z where "z \<in> set (f x)" "y \<in> set (iterLazy f fuel z)"
    by auto
  then show ?case
  proof cases
    case 1
    then show ?thesis by simp
  next
    case 2
    from Cons.prems(1) 2(1) obtain u where u: "snd x = u @ snd z"
      unfolding shrinks_def by blast
    from Cons.IH [OF Cons.prems(1) 2(2)] obtain v where "snd z = v @ snd y" by blast
    with u have "snd x = (u @ v) @ snd y" by simp
    then show ?thesis by blast
  qed
qed

lemma ms_shrinks: "shrinks (ms r)"
proof (induction r)
  case Eps
  show ?case by (simp add: shrinks_def)
next
  case (Sym f)
  show ?case by (auto simp: shrinks_def split: list.splits if_splits)
next
  case (Seq a b)
  show ?case
    unfolding shrinks_def
  proof (intro allI impI)
    fix x y assume "y \<in> set (ms (Seq a b) x)"
    then obtain z where z: "z \<in> set (ms a x)" "y \<in> set (ms b z)" by auto
    from Seq.IH(1) z(1) obtain u where u: "snd x = u @ snd z" unfolding shrinks_def by blast
    from Seq.IH(2) z(2) obtain v where "snd z = v @ snd y" unfolding shrinks_def by blast
    with u have "snd x = (u @ v) @ snd y" by simp
    then show "\<exists>u. snd x = u @ snd y" by blast
  qed
next
  case (Alt a b)
  then show ?case by (auto simp: shrinks_def)
next
  case (Star r)
  then show ?case using iterGreedy_suffix by (auto simp: shrinks_def)
next
  case (LazyStar r)
  then show ?case using iterLazy_suffix by (auto simp: shrinks_def)
next
  case Eol
  show ?case by (simp add: shrinks_def)
next
  case Wb
  show ?case by (simp add: shrinks_def)
qed

lemma ms_suffix: "y \<in> set (ms r x) \<Longrightarrow> \<exists>u. snd x = u @ snd y"
  using ms_shrinks unfolding shrinks_def by blast

lemma ms_length_le: "y \<in> set (ms r x) \<Longrightarrow> length (snd y) \<le> length (snd x)"
  using ms_suffix [of y r x] by auto

lemma ms_progress: "\<not> nullable r \<Longrightarrow> y \<in> set (ms r x) \<Longrightarrow> length (snd y) < length (snd x)"
proof (induction r arbitrary: x y)
  case (Sym f)
  then show ?case by (cases "snd x") (auto split: if_splits)
next
  case (Seq a b)
  from Seq.prems(2) obtain z where z: "z \<in> set (ms a x)" "y \<in> set (ms b z)" by auto
  from Seq.prems(1) consider "\<not> nullable a" | "\<not> nullable b" by auto
  then show ?case
  proof cases
    case 1
    with Seq.IH(1) z(1) have "length (snd z) < length (snd x)" by blast
    with ms_length_le [OF z(2)] show ?thesis by simp
  next
    case 2
    with Seq.IH(2) z(2) have "length (snd y) < length (snd z)" by blast
    with ms_length_le [OF z(1)] show ?thesis by simp
  qed
next
  case (Alt a b)
  from Alt.prems(1) have na: "\<not> nullable a" "\<not> nullable b" by auto
  from Alt.prems(2) have "y \<in> set (ms a x) \<or> y \<in> set (ms b x)" by simp
  then show ?case using Alt.IH na by blast
qed simp_all

lemma rxMatch_prefix: "rxMatch r s = Some m \<Longrightarrow> m = take (length m) s"
  by (auto simp: rxMatch_def split: list.splits)

lemma rxMatch_progress: "\<not> nullable r \<Longrightarrow> rxMatch r s = Some m \<Longrightarrow> m \<noteq> []"
proof -
  assume n: "\<not> nullable r" and m: "rxMatch r s = Some m"
  from m obtain x xs where x: "ms r (False, s) = x # xs" "m = take (length s - length (snd x)) s"
    by (auto simp: rxMatch_def split: list.splits)
  then have "x \<in> set (ms r (False, s))" by simp
  from ms_progress [OF n this] have "length (snd x) < length s" by simp
  with x(2) show ?thesis by auto
qed

lemma upc_pair:
  "upc c = c \<or> (c, upc c) \<in> set (zip (lowers @ latinLowers) (uppers @ latinUppers))"
  by (auto simp: upc_def split: option.splits dest: map_of_SomeD)

lemma upc_table:
  "list_all (\<lambda>(l, u). upc u = u \<and> u \<noteq> sharpS \<and> isAscii u = isAscii l)
     (zip (lowers @ latinLowers) (uppers @ latinUppers))"
  by code_simp

lemma upc_idem: "upc (upc c) = upc c"
  using upc_pair [of c] upc_table by (auto simp: list_all_iff)

lemma upc_sharpS: "(upc c = sharpS) = (c = sharpS)"
proof
  assume "upc c = sharpS"
  with upc_pair [of c] upc_table show "c = sharpS" by (auto simp: list_all_iff)
next
  have "upc sharpS = sharpS" by code_simp
  then show "c = sharpS \<Longrightarrow> upc c = sharpS" by simp
qed

lemma upc_isAscii: "isAscii (upc c) = isAscii c"
  using upc_pair [of c] upc_table by (auto simp: list_all_iff)

lemma toUpperCase_simps:
  "toUpperCase [] = []"
  "toUpperCase (c # s) = (if c = sharpS then ''SS'' else [upc c]) @ toUpperCase s"
  "toUpperCase (a @ b) = toUpperCase a @ toUpperCase b"
  by (simp_all add: toUpperCase_def)

lemma toUpperCase_plain: "sharpS \<notin> set s \<Longrightarrow> toUpperCase s = map upc s"
  by (induction s) (auto simp: toUpperCase_simps)

lemma toUpperCase_SS: "toUpperCase ''SS'' = ''SS''"
  by code_simp

lemma toUpperCase_idem: "toUpperCase (toUpperCase s) = toUpperCase s"
proof (induction s)
  case Nil
  show ?case by (simp add: toUpperCase_simps)
next
  case (Cons c s)
  show ?case
  proof (cases "c = sharpS")
    case True
    then have e: "toUpperCase (c # s) = ''SS'' @ toUpperCase s"
      by (simp add: toUpperCase_simps(2))
    have "toUpperCase (toUpperCase (c # s)) = toUpperCase (''SS'' @ toUpperCase s)"
      by (simp only: e)
    also have "\<dots> = toUpperCase ''SS'' @ toUpperCase (toUpperCase s)"
      by (rule toUpperCase_simps(3))
    also have "\<dots> = ''SS'' @ toUpperCase s"
      by (simp only: toUpperCase_SS Cons.IH)
    finally show ?thesis by (simp only: e)
  next
    case False
    then have u: "upc c \<noteq> sharpS" by (simp add: upc_sharpS)
    from False have e: "toUpperCase (c # s) = [upc c] @ toUpperCase s"
      by (simp add: toUpperCase_simps(2))
    from u have a: "toUpperCase [upc c] = [upc c]"
      by (simp add: toUpperCase_simps(1,2) upc_idem)
    have "toUpperCase (toUpperCase (c # s)) = toUpperCase ([upc c] @ toUpperCase s)"
      by (simp only: e)
    also have "\<dots> = toUpperCase [upc c] @ toUpperCase (toUpperCase s)"
      by (rule toUpperCase_simps(3))
    also have "\<dots> = [upc c] @ toUpperCase s"
      by (simp only: a Cons.IH)
    finally show ?thesis by (simp only: e)
  qed
qed

lemma toUpperCase_Nil_iff: "(toUpperCase s = []) = (s = [])"
  by (cases s) (simp_all add: toUpperCase_simps)

lemma getTokenOnFirstMatch_text:
  "getTokenOnFirstMatch input ty r = Some t \<Longrightarrow>
     type t = ty \<and> key t = [] \<and> value t = take (length (value t)) input"
  using rxMatch_prefix by (auto simp: getTokenOnFirstMatch_def split: option.splits)

lemma getTokenOnFirstMatch_progress:
  "\<not> nullable r \<Longrightarrow> getTokenOnFirstMatch input ty r = Some t \<Longrightarrow> value t \<noteq> []"
  using rxMatch_progress by (auto simp: getTokenOnFirstMatch_def split: option.splits)

text \<open>What a pattern consumes.\<close>

lemma iterGreedy_within:
  "within P f \<Longrightarrow> y \<in> set (iterGreedy f fuel x) \<Longrightarrow> \<exists>u. snd x = u @ snd y \<and> list_all P u"
proof (induction fuel arbitrary: x)
  case Nil
  then show ?case by simp
next
  case (Cons c fuel)
  from Cons.prems(2) consider "y = x"
    | z where "z \<in> set (f x)" "y \<in> set (iterGreedy f fuel z)"
    by auto
  then show ?case
  proof cases
    case 1
    then show ?thesis by simp
  next
    case 2
    from Cons.prems(1) 2(1) obtain u where u: "snd x = u @ snd z" "list_all P u"
      unfolding within_def by blast
    from Cons.IH [OF Cons.prems(1) 2(2)] obtain v where "snd z = v @ snd y" "list_all P v" by blast
    with u have "snd x = (u @ v) @ snd y \<and> list_all P (u @ v)" by simp
    then show ?thesis by blast
  qed
qed

lemma iterLazy_within:
  "within P f \<Longrightarrow> y \<in> set (iterLazy f fuel x) \<Longrightarrow> \<exists>u. snd x = u @ snd y \<and> list_all P u"
proof (induction fuel arbitrary: x)
  case Nil
  then show ?case by simp
next
  case (Cons c fuel)
  from Cons.prems(2) consider "y = x"
    | z where "z \<in> set (f x)" "y \<in> set (iterLazy f fuel z)"
    by auto
  then show ?case
  proof cases
    case 1
    then show ?thesis by simp
  next
    case 2
    from Cons.prems(1) 2(1) obtain u where u: "snd x = u @ snd z" "list_all P u"
      unfolding within_def by blast
    from Cons.IH [OF Cons.prems(1) 2(2)] obtain v where "snd z = v @ snd y" "list_all P v" by blast
    with u have "snd x = (u @ v) @ snd y \<and> list_all P (u @ v)" by simp
    then show ?thesis by blast
  qed
qed

lemma ms_within: "consumes P r \<Longrightarrow> within P (ms r)"
proof (induction r)
  case Eps
  show ?case by (simp add: within_def)
next
  case (Sym f)
  show ?case
    unfolding within_def
  proof (intro allI impI)
    fix x y assume y: "y \<in> set (ms (Sym f) x)"
    then obtain c where c: "snd x = c # snd y" "f c"
      by (cases "snd x") (auto split: if_splits)
    with Sym have "snd x = [c] @ snd y \<and> list_all P [c]" by simp
    then show "\<exists>u. snd x = u @ snd y \<and> list_all P u" by blast
  qed
next
  case (Seq a b)
  then have wa: "within P (ms a)" and wb: "within P (ms b)" by simp_all
  show ?case
    unfolding within_def
  proof (intro allI impI)
    fix x y assume "y \<in> set (ms (Seq a b) x)"
    then obtain z where z: "z \<in> set (ms a x)" "y \<in> set (ms b z)" by auto
    from wa z(1) obtain u where u: "snd x = u @ snd z" "list_all P u" unfolding within_def by blast
    from wb z(2) obtain v where "snd z = v @ snd y" "list_all P v" unfolding within_def by blast
    with u have "snd x = (u @ v) @ snd y \<and> list_all P (u @ v)" by simp
    then show "\<exists>u. snd x = u @ snd y \<and> list_all P u" by blast
  qed
next
  case (Alt a b)
  then show ?case by (auto simp: within_def)
next
  case (Star r)
  then show ?case using iterGreedy_within [of P "ms r"] by (auto simp: within_def)
next
  case (LazyStar r)
  then show ?case using iterLazy_within [of P "ms r"] by (auto simp: within_def)
next
  case Eol
  show ?case by (simp add: within_def)
next
  case Wb
  show ?case by (simp add: within_def)
qed

lemma rxMatch_within: "consumes P r \<Longrightarrow> rxMatch r s = Some m \<Longrightarrow> list_all P m"
proof -
  assume c: "consumes P r" and m: "rxMatch r s = Some m"
  from m obtain x xs where x: "ms r (False, s) = x # xs" "m = take (length s - length (snd x)) s"
    by (auto simp: rxMatch_def split: list.splits)
  then have "x \<in> set (ms r (False, s))" by simp
  with ms_within [OF c] obtain u where "s = u @ snd x" "list_all P u"
    unfolding within_def by fastforce
  with x(2) show ?thesis by simp
qed

lemma consumes_seqs: "consumes P (seqs rs) = list_all (consumes P) rs"
  by (induction rs) (simp_all add: seqs_def)

lemma consumes_alts: "list_all (consumes P) rs \<Longrightarrow> consumes P (alts rs)"
  by (induction rs rule: alts.induct) simp_all

lemma consumes_ChrI: "isAscii c \<Longrightarrow> consumes asciiOrSpace (ChrI c)"
proof -
  assume a: "isAscii c"
  have "isAscii d" if "upc d = upc c" for d
  proof -
    from that have "isAscii (upc d) = isAscii (upc c)" by simp
    with a show ?thesis by (simp add: upc_isAscii)
  qed
  then show ?thesis by (simp add: ChrI_def asciiOrSpace_def)
qed

lemma consumes_LitI: "list_all isAscii p \<Longrightarrow> consumes asciiOrSpace (LitI p)"
  by (simp add: LitI_def consumes_seqs list_all_iff consumes_ChrI)

lemma isWordChar_isAscii: "isWordChar c \<Longrightarrow> isAscii c"
proof -
  have "list_all isAscii (lowers @ uppers @ digits @ ''_'')" by code_simp
  then show "isWordChar c \<Longrightarrow> isAscii c" by (auto simp: isWordChar_def list_all_iff)
qed

lemma consumes_reservedWordPattern:
  "list_all (\<lambda>ch. isWordChar ch \<or> ch = CHR 0x20) w \<Longrightarrow> consumes asciiOrSpace (reservedWordPattern w)"
proof (induction w)
  case Nil
  show ?case by (simp add: reservedWordPattern_def seqs_def)
next
  case (Cons c w)
  have r: "reservedWordPattern (c # w)
      = Seq (if c = CHR '' '' then Plus (Sym isSpace) else ChrI c) (reservedWordPattern w)"
    by (simp add: reservedWordPattern_def seqs_def)
  from Cons.prems have c: "isWordChar c \<or> c = CHR '' ''"
    and w: "list_all (\<lambda>ch. isWordChar ch \<or> ch = CHR 0x20) w" by simp_all
  have "consumes asciiOrSpace (if c = CHR '' '' then Plus (Sym isSpace) else ChrI c)"
  proof (cases "c = CHR '' ''")
    case True
    then show ?thesis by (simp add: Plus_def asciiOrSpace_def)
  next
    case False
    with c have "isWordChar c" by simp
    with False show ?thesis by (simp add: consumes_ChrI isWordChar_isAscii)
  qed
  with Cons.IH [OF w] show ?case unfolding r by simp
qed

lemma consumes_createReservedWordRegex:
  "list_all (list_all (\<lambda>ch. isWordChar ch \<or> ch = CHR 0x20)) ws \<Longrightarrow>
     consumes asciiOrSpace (createReservedWordRegex ws)"
  by (simp add: createReservedWordRegex_def consumes_alts list_all_iff consumes_reservedWordPattern)

lemma consumes_escapeParen: "list_all isAscii p \<Longrightarrow> consumes asciiOrSpace (escapeParen p)"
  by (simp add: escapeParen_def consumes_LitI)

lemma consumes_createParenRegex:
  "list_all (list_all isAscii) ps \<Longrightarrow> consumes asciiOrSpace (createParenRegex ps)"
  by (simp add: createParenRegex_def consumes_alts list_all_iff consumes_escapeParen)

lemma literalConfig_asciiUpper:
  assumes "literalConfig c"
  shows "asciiUpper (newTokenizer c)"
proof -
  from assms have r: "list_all (list_all (\<lambda>ch. isWordChar ch \<or> ch = CHR 0x20)) (reservedWords c)"
    "list_all (list_all (\<lambda>ch. isWordChar ch \<or> ch = CHR 0x20)) (reservedToplevelWords c)"
    "list_all (list_all (\<lambda>ch. isWordChar ch \<or> ch = CHR 0x20)) (reservedNewlineWords c)"
    by (simp_all add: literalConfig_def)
  from assms have p: "list_all (list_all isAscii) (openParens c)"
    "list_all (list_all isAscii) (closeParens c)"
    by (auto simp: literalConfig_def list_all_iff)
  from r p show ?thesis
    by (simp add: asciiUpper_def newTokenizer_def consumes_createReservedWordRegex
          consumes_createParenRegex)
qed

lemma asciiOrSpace_sharpS: "asciiOrSpace c \<Longrightarrow> c \<noteq> sharpS"
  by (auto simp: asciiOrSpace_def isAscii_def isSpace_def sharpS_def)















lemma orElse_Some: "orElse a b = Some t \<Longrightarrow> a = Some t \<or> (a = None \<and> b = Some t)"
  by (auto simp: orElse_def split: option.splits)

lemma orElseE_Some:
  "orElseE a b = Inr (Some t) \<Longrightarrow> a = Inr (Some t) \<or> (a = Inr None \<and> b = Inr (Some t))"
  by (auto simp: orElseE_def split: sum.splits option.splits)

lemma orElseE_None: "orElseE a b = Inr None \<Longrightarrow> a = Inr None \<and> b = Inr None"
  by (auto simp: orElseE_def split: sum.splits option.splits)

lemma take_self_length: "v = take n s \<Longrightarrow> length v \<le> length s"
  by simp

lemma plain_slice:
  assumes "getTokenOnFirstMatch input ty r = Some t" "progressive tk \<Longrightarrow> \<not> nullable r"
    "\<not> upperCased ty"
  shows "sliceOf tk input t \<and> type t = ty"
proof -
  from getTokenOnFirstMatch_text [OF assms(1)]
  have t: "type t = ty" "value t = take (length (value t)) input" by simp_all
  from t(2) have "length (value t) \<le> length input"
    by (rule take_self_length)
  with t assms(2,3) getTokenOnFirstMatch_progress [OF _ assms(1)]
  show ?thesis by (auto simp: sliceOf_def tokenText_def)
qed

lemma upper_slice_token:
  assumes "getTokenOnFirstMatch input ty r = Some t" "progressive tk \<Longrightarrow> \<not> nullable r"
    "asciiUpper tk \<Longrightarrow> consumes asciiOrSpace r" "upperCased ty"
  shows "sliceOf tk input (t\<lparr>value := toUpperCase (value t)\<rparr>)
         \<and> type (t\<lparr>value := toUpperCase (value t)\<rparr>) = ty"
proof -
  from getTokenOnFirstMatch_text [OF assms(1)]
  have t: "type t = ty" "value t = take (length (value t)) input" by simp_all
  from t(2) have le: "length (value t) \<le> length input"
    by (rule take_self_length)
  have ne: "progressive tk \<Longrightarrow> toUpperCase (value t) \<noteq> []"
    using assms(2) getTokenOnFirstMatch_progress [OF _ assms(1)] by (simp add: toUpperCase_Nil_iff)
  have sl: "asciiUpper tk \<Longrightarrow> length (toUpperCase (value t)) = length (value t)"
  proof -
    assume "asciiUpper tk"
    from assms(3) [OF this] assms(1) have "list_all asciiOrSpace (value t)"
      using rxMatch_within [of asciiOrSpace r input]
      by (auto simp: getTokenOnFirstMatch_def split: option.splits)
    then have "sharpS \<notin> set (value t)"
      using asciiOrSpace_sharpS by (auto simp: list_all_iff)
    then show ?thesis by (simp add: toUpperCase_plain)
  qed
  from t le ne sl assms(4) show ?thesis
    by (auto simp: sliceOf_def tokenText_def)
qed

lemma sliceOf_key: "sliceOf tk input t \<Longrightarrow> sliceOf tk input (t\<lparr>key := k\<rparr>)"
  by (auto simp: sliceOf_def tokenText_def)

lemma upperCased_types:
  "\<not> upperCased WHITESPACE" "\<not> upperCased LINE_COMMENT" "\<not> upperCased BLOCK_COMMENT"
  "\<not> upperCased STRING" "\<not> upperCased PLACEHOLDER" "\<not> upperCased NUMBER"
  "\<not> upperCased WORD" "\<not> upperCased OPERATOR"
  "upperCased OPEN_PAREN" "upperCased CLOSE_PAREN"
  "upperCased RESERVED" "upperCased RESERVED_TOPLEVEL" "upperCased RESERVED_NEWLINE"
  by (simp_all add: upperCased_def tokenTypes_defs)

lemma placeholder_slice:
  assumes "getPlaceholderTokenWithKey input r parseKey = Inr (Some t)"
    "progressive tk \<Longrightarrow> \<not> nullable r"
  shows "sliceOf tk input t \<and> type t = PLACEHOLDER"
proof -
  from assms(1) obtain t0 k where t0: "getTokenOnFirstMatch input PLACEHOLDER r = Some t0"
    and t: "t = t0\<lparr>key := k\<rparr>"
    by (auto simp: getPlaceholderTokenWithKey_def split: option.splits sum.splits)
  from plain_slice [OF t0 assms(2) upperCased_types(5)] t show ?thesis
    by (simp add: sliceOf_key)
qed

lemma getPlaceholderToken_slice:
  assumes "getPlaceholderToken tk input = Inr (Some t)"
  shows "sliceOf tk input t \<and> type t = PLACEHOLDER"
proof -
  from assms consider
      "getIdentNamedPlaceholderToken tk input = Inr (Some t)"
    | "getStringNamedPlaceholderToken tk input = Inr (Some t)"
    | "getIndexedPlaceholderToken tk input = Inr (Some t)"
    unfolding getPlaceholderToken_def by (blast dest: orElseE_Some)
  then show ?thesis
  proof cases
    case 1
    then show ?thesis
      unfolding getIdentNamedPlaceholderToken_def
      by (rule placeholder_slice) (simp add: progressive_def)
  next
    case 2
    then show ?thesis
      unfolding getStringNamedPlaceholderToken_def
      by (rule placeholder_slice) (simp add: progressive_def)
  next
    case 3
    then show ?thesis
      unfolding getIndexedPlaceholderToken_def
      by (rule placeholder_slice) (simp add: progressive_def)
  qed
qed

lemma getOpenParenToken_slice:
  assumes "getOpenParenToken tk input = Some t"
  shows "sliceOf tk input t \<and> type t = OPEN_PAREN"
proof -
  from assms obtain t0 where "getTokenOnFirstMatch input OPEN_PAREN (OPEN_PAREN_REGEX tk) = Some t0"
    "t = t0\<lparr>value := toUpperCase (value t0)\<rparr>"
    by (auto simp: getOpenParenToken_def split: option.splits)
  then show ?thesis
    using upper_slice_token [of input OPEN_PAREN "OPEN_PAREN_REGEX tk" t0 tk]
    by (simp add: progressive_def asciiUpper_def upperCased_types)
qed

lemma getCloseParenToken_slice:
  assumes "getCloseParenToken tk input = Some t"
  shows "sliceOf tk input t \<and> type t = CLOSE_PAREN"
proof -
  from assms obtain t0 where "getTokenOnFirstMatch input CLOSE_PAREN (CLOSE_PAREN_REGEX tk) = Some t0"
    "t = t0\<lparr>value := toUpperCase (value t0)\<rparr>"
    by (auto simp: getCloseParenToken_def split: option.splits)
  then show ?thesis
    using upper_slice_token [of input CLOSE_PAREN "CLOSE_PAREN_REGEX tk" t0 tk]
    by (simp add: progressive_def asciiUpper_def upperCased_types)
qed

lemma getReservedWordToken_slice:
  assumes "getReservedWordToken tk input prev = Some t"
  shows "sliceOf tk input t \<and> type t \<in> {RESERVED_TOPLEVEL, RESERVED_NEWLINE, RESERVED}"
proof -
  from assms obtain t0 where
    t0: "orElse (getToplevelReservedToken tk input)
           (orElse (getNewlineReservedToken tk input) (getPlainReservedToken tk input)) = Some t0"
    and t: "t = t0\<lparr>value := toUpperCase (value t0)\<rparr>"
    by (auto simp: getReservedWordToken_def split: option.splits if_splits)
  from t0 consider "getToplevelReservedToken tk input = Some t0"
    | "getNewlineReservedToken tk input = Some t0"
    | "getPlainReservedToken tk input = Some t0"
    by (blast dest: orElse_Some)
  then show ?thesis
  proof cases
    case 1
    then show ?thesis
      using upper_slice_token [of input RESERVED_TOPLEVEL "RESERVED_TOPLEVEL_REGEX tk" t0 tk] t
      by (simp add: getToplevelReservedToken_def progressive_def asciiUpper_def upperCased_types)
  next
    case 2
    then show ?thesis
      using upper_slice_token [of input RESERVED_NEWLINE "RESERVED_NEWLINE_REGEX tk" t0 tk] t
      by (simp add: getNewlineReservedToken_def progressive_def asciiUpper_def upperCased_types)
  next
    case 3
    then show ?thesis
      using upper_slice_token [of input RESERVED "RESERVED_PLAIN_REGEX tk" t0 tk] t
      by (simp add: getPlainReservedToken_def progressive_def asciiUpper_def upperCased_types)
  qed
qed

lemma getNextToken_cases:
  assumes "getNextToken tk input prev = Inr (Some t)"
  shows "getWhitespaceToken tk input = Some t \<or> getLineCommentToken tk input = Some t
    \<or> getBlockCommentToken tk input = Some t \<or> getStringToken tk input = Some t
    \<or> getOpenParenToken tk input = Some t \<or> getCloseParenToken tk input = Some t
    \<or> getPlaceholderToken tk input = Inr (Some t) \<or> getNumberToken tk input = Some t
    \<or> getReservedWordToken tk input prev = Some t \<or> getWordToken tk input = Some t
    \<or> getOperatorToken tk input = Some t"
  using assms unfolding getNextToken_def getCommentToken_def
  by (auto dest!: orElseE_Some orElse_Some)

text \<open>Which matcher produced a token can be read off its type.\<close>

lemma getNextToken_slice_type:
  assumes "getNextToken tk input prev = Inr (Some t)"
  shows "sliceOf tk input t
    \<and> (type t \<in> {RESERVED_TOPLEVEL, RESERVED_NEWLINE, RESERVED}
          \<longrightarrow> getReservedWordToken tk input prev = Some t)"
proof -
  have d: "WHITESPACE \<notin> {RESERVED_TOPLEVEL, RESERVED_NEWLINE, RESERVED}"
    "LINE_COMMENT \<notin> {RESERVED_TOPLEVEL, RESERVED_NEWLINE, RESERVED}"
    "BLOCK_COMMENT \<notin> {RESERVED_TOPLEVEL, RESERVED_NEWLINE, RESERVED}"
    "STRING \<notin> {RESERVED_TOPLEVEL, RESERVED_NEWLINE, RESERVED}"
    "OPEN_PAREN \<notin> {RESERVED_TOPLEVEL, RESERVED_NEWLINE, RESERVED}"
    "CLOSE_PAREN \<notin> {RESERVED_TOPLEVEL, RESERVED_NEWLINE, RESERVED}"
    "PLACEHOLDER \<notin> {RESERVED_TOPLEVEL, RESERVED_NEWLINE, RESERVED}"
    "NUMBER \<notin> {RESERVED_TOPLEVEL, RESERVED_NEWLINE, RESERVED}"
    "WORD \<notin> {RESERVED_TOPLEVEL, RESERVED_NEWLINE, RESERVED}"
    "OPERATOR \<notin> {RESERVED_TOPLEVEL, RESERVED_NEWLINE, RESERVED}"
    by (simp_all add: tokenTypes_defs)
  have p: "\<And>r ty. getTokenOnFirstMatch input ty r = Some t \<Longrightarrow> \<not> upperCased ty \<Longrightarrow>
      (progressive tk \<Longrightarrow> \<not> nullable r) \<Longrightarrow> ty \<notin> {RESERVED_TOPLEVEL, RESERVED_NEWLINE, RESERVED} \<Longrightarrow>
      sliceOf tk input t \<and> type t \<notin> {RESERVED_TOPLEVEL, RESERVED_NEWLINE, RESERVED}"
    using plain_slice by metis
  from getNextToken_cases [OF assms] consider
      "getWhitespaceToken tk input = Some t" | "getLineCommentToken tk input = Some t"
    | "getBlockCommentToken tk input = Some t" | "getStringToken tk input = Some t"
    | "getOpenParenToken tk input = Some t" | "getCloseParenToken tk input = Some t"
    | "getPlaceholderToken tk input = Inr (Some t)" | "getNumberToken tk input = Some t"
    | "getReservedWordToken tk input prev = Some t" | "getWordToken tk input = Some t"
    | "getOperatorToken tk input = Some t"
    by blast
  then show ?thesis
  proof cases
    case 1 then show ?thesis unfolding getWhitespaceToken_def
      using p [OF _ upperCased_types(1) _ d(1)] by (simp add: progressive_def)
  next
    case 2 then show ?thesis unfolding getLineCommentToken_def
      using p [OF _ upperCased_types(2) _ d(2)] by (simp add: progressive_def)
  next
    case 3 then show ?thesis unfolding getBlockCommentToken_def
      using p [OF _ upperCased_types(3) _ d(3)] by (simp add: progressive_def)
  next
    case 4 then show ?thesis unfolding getStringToken_def
      using p [OF _ upperCased_types(4) _ d(4)] by (simp add: progressive_def)
  next
    case 5 then show ?thesis using getOpenParenToken_slice d(5) by metis
  next
    case 6 then show ?thesis using getCloseParenToken_slice d(6) by metis
  next
    case 7 then show ?thesis using getPlaceholderToken_slice d(7) by metis
  next
    case 8 then show ?thesis unfolding getNumberToken_def
      using p [OF _ upperCased_types(6) _ d(8)] by (simp add: progressive_def)
  next
    case 9 then show ?thesis using getReservedWordToken_slice by blast
  next
    case 10 then show ?thesis unfolding getWordToken_def
      using p [OF _ upperCased_types(7) _ d(9)] by (simp add: progressive_def)
  next
    case 11 then show ?thesis unfolding getOperatorToken_def
      using p [OF _ upperCased_types(8) _ d(10)] by (simp add: progressive_def)
  qed
qed



lemma iterGreedy_nonempty: "iterGreedy f fuel x \<noteq> []"
  by (cases fuel) simp_all

lemma whitespace_matches: "isSpace c \<Longrightarrow> rxMatch whitespaceRegex (c # cs) \<noteq> None"
  by (simp add: rxMatch_def whitespaceRegex_def Plus_def iterGreedy_nonempty split: list.splits)

lemma ms_alts_mono: "r \<in> set rs \<Longrightarrow> set (ms r x) \<subseteq> set (ms (alts rs) x)"
  by (induction rs rule: alts.induct) auto

lemma operator_matches: "isDot c \<Longrightarrow> rxMatch operatorRegex (c # cs) \<noteq> None"
proof -
  assume d: "isDot c"
  have "Sym isDot \<in> set (map Lit [''!='', ''<>'', ''=='', ''<='', ''>='', ''!<'', ''!>'', ''||'', ''::'',
                    ''->>'', ''->'', ''~~*'', ''~~'', ''!~~*'', ''!~~'', ''~*'', ''!~*'', ''!~'']
           @ [Sym isDot])" by simp
  from ms_alts_mono [OF this, of "(False, c # cs)"] d
  have "(isWordChar c, cs) \<in> set (ms operatorRegex (False, c # cs))"
    unfolding operatorRegex_def by auto
  then show ?thesis by (auto simp: rxMatch_def split: list.splits)
qed

lemma space_or_dot: "isSpace c \<or> isDot c"
  by (auto simp: isSpace_def isDot_def)

lemma getNextToken_defined:
  assumes "WHITESPACE_REGEX tk = whitespaceRegex" "OPERATOR_REGEX tk = operatorRegex" "input \<noteq> []"
  shows "getNextToken tk input prev \<noteq> Inr None"
proof
  assume "getNextToken tk input prev = Inr None"
  then have w: "getWhitespaceToken tk input = None" and o: "getOperatorToken tk input = None"
    unfolding getNextToken_def by (auto dest!: orElseE_None)
  from assms(3) obtain c cs where i: "input = c # cs" by (cases input) auto
  from w assms(1) i have "rxMatch whitespaceRegex (c # cs) = None"
    by (simp add: getWhitespaceToken_def getTokenOnFirstMatch_def split: option.splits)
  with whitespace_matches have "\<not> isSpace c" by blast
  with space_or_dot have "isDot c" by blast
  from operator_matches [OF this, of cs] o assms(2) i show False
    by (auto simp: getOperatorToken_def getTokenOnFirstMatch_def split: option.splits)
qed




text \<open>What holds of the tokens whenever the loop returns them.\<close>

lemma getNextToken_after_dot:
  assumes "getNextToken tk input prev = Inr (Some t)"
  shows "(case prev of Some q \<Rightarrow> value q = ''.'' \<longrightarrow> \<not> isReservedType (type t) | None \<Rightarrow> True)"
proof (cases prev)
  case None
  then show ?thesis by simp
next
  case (Some q)
  have "value q = ''.'' \<Longrightarrow> \<not> isReservedType (type t)"
  proof
    assume d: "value q = ''.''" and r: "isReservedType (type t)"
    from d Some have "getReservedWordToken tk input prev = None"
      by (simp add: getReservedWordToken_def)
    with getNextToken_slice_type [OF assms] r show False
      by (auto simp: isReservedType_def)
  qed
  with Some show ?thesis by simp
qed

lemma tokenizeLoop_result:
  assumes "tokenizeLoop tk input prev acc = Some (Inr ts)"
    "WHITESPACE_REGEX tk = whitespaceRegex" "OPERATOR_REGEX tk = operatorRegex"
  shows "\<exists>new. ts = acc @ new \<and> dotRule prev new \<and> (asciiUpper tk \<longrightarrow> covers new input)"
proof -
  let ?P = "\<lambda>tk' input' p a (r :: error + Token list). tk' = tk \<longrightarrow>
      (\<forall>ts. r = Inr ts \<longrightarrow>
         (\<exists>new. ts = a @ new \<and> dotRule p new \<and> (asciiUpper tk \<longrightarrow> covers new input')))"
  have "?P tk input prev acc (Inr ts)"
  proof (rule tokenizeLoop.raw_induct [where P = ?P, OF _ assms(1)])
    fix f tk' input' token toks r
    assume ih: "\<And>tk' input' p a r. f tk' input' p a = Some r \<Longrightarrow> ?P tk' input' p a r"
      and st: "(if length input' = 0 then Some (Inr toks)
         else case getNextToken tk' input' token of Inl e \<Rightarrow> Some (Inl e)
              | Inr None \<Rightarrow> f tk' input' None toks
              | Inr (Some t) \<Rightarrow> f tk' (drop (length (value t)) input') (Some t) (toks @ [t])) = Some r"
    show "?P tk' input' token toks r"
    proof (intro impI allI)
      fix ts' assume e: "tk' = tk" and r: "r = Inr ts'"
      show "\<exists>new. ts' = toks @ new \<and> dotRule token new \<and> (asciiUpper tk \<longrightarrow> covers new input')"
      proof (cases "input' = []")
        case True
        with st r have "ts' = toks @ [] \<and> dotRule token [] \<and> (asciiUpper tk \<longrightarrow> covers [] input')"
          by simp
        then show ?thesis by blast
      next
        case False
        show ?thesis
        proof (cases "getNextToken tk input' token")
          case (Inl e')
          with st r e False show ?thesis by simp
        next
          case (Inr res)
          with getNextToken_defined [OF assms(2,3) False, of token] obtain t where t: "res = Some t"
            by (cases res) auto
          with st e False Inr
          have "f tk (drop (length (value t)) input') (Some t) (toks @ [t]) = Some r" by simp
          from ih [OF this] r obtain new where n: "ts' = (toks @ [t]) @ new"
            "dotRule (Some t) new" "asciiUpper tk \<longrightarrow> covers new (drop (length (value t)) input')"
            by blast
          from Inr t have g: "getNextToken tk input' token = Inr (Some t)" by simp
          from getNextToken_slice_type [OF g]
          have "asciiUpper tk \<longrightarrow> length (value t) \<le> length input' \<and> tokenText t input'"
            by (simp add: sliceOf_def)
          with n getNextToken_after_dot [OF g]
          have "ts' = toks @ (t # new) \<and> dotRule token (t # new)
              \<and> (asciiUpper tk \<longrightarrow> covers (t # new) input')"
            by simp
          then show ?thesis by blast
        qed
      qed
    qed
  qed
  then show ?thesis by simp
qed


lemma tokenizeLoop_stuck:
  assumes "input \<noteq> []"
    and "\<And>prev. \<exists>t. getNextToken tk input prev = Inr (Some t) \<and> value t = []"
  shows "tokenizeLoop tk input prev acc = None"
proof (rule ccontr)
  assume "tokenizeLoop tk input prev acc \<noteq> None"
  then obtain y where y: "tokenizeLoop tk input prev acc = Some y" by blast
  have "\<not> (tk = tk \<and> input = input)"
  proof (rule tokenizeLoop.raw_induct [where P = "\<lambda>tk' input' p a r. \<not> (tk' = tk \<and> input' = input)", OF _ y])
    fix f tk' input' token toks r
    assume ih: "\<And>tk' input' p a r. f tk' input' p a = Some r \<Longrightarrow> \<not> (tk' = tk \<and> input' = input)"
      and st: "(if length input' = 0 then Some (Inr toks)
         else case getNextToken tk' input' token of Inl e \<Rightarrow> Some (Inl e)
              | Inr None \<Rightarrow> f tk' input' None toks
              | Inr (Some t) \<Rightarrow> f tk' (drop (length (value t)) input') (Some t) (toks @ [t])) = Some r"
    show "\<not> (tk' = tk \<and> input' = input)"
    proof
      assume e: "tk' = tk \<and> input' = input"
      from assms(2) [of token] obtain t where
        t: "getNextToken tk input token = Inr (Some t)" "value t = []" by blast
      with st e assms(1) have "f tk input (Some t) (toks @ [t]) = Some r" by simp
      from ih [OF this] show False by simp
    qed
  qed
  then show False by simp
qed

lemma iterGreedy_Sym_hd:
  "length s \<le> length fuel \<Longrightarrow>
     \<exists>w' rest. iterGreedy (ms (Sym P)) fuel (w, s) = (w', dropWhile P s) # rest"
proof (induction fuel arbitrary: w s)
  case Nil
  then show ?case by simp
next
  case (Cons u fuel)
  show ?case
  proof (cases s)
    case Nil
    then show ?thesis by simp
  next
    case (Cons d ds)
    show ?thesis
    proof (cases "P d")
      case True
      from Cons.prems Cons have "length ds \<le> length fuel" by simp
      from Cons.IH [OF this, of "isWordChar d"] obtain w' rest where
        r: "iterGreedy (ms (Sym P)) fuel (isWordChar d, ds) = (w', dropWhile P ds) # rest" by blast
      from True have fx: "ms (Sym P) (w, d # ds) = [(isWordChar d, ds)]" by simp
      from True Cons r show ?thesis by (simp del: ms.simps add: fx)
    next
      case False
      with Cons show ?thesis by simp
    qed
  qed
qed

lemma take_length_dropWhile: "take (length s - length (dropWhile P s)) s = takeWhile P s"
proof -
  have "length s - length (dropWhile P s) = length (takeWhile P s)"
    by (metis add_diff_cancel_right' length_append takeWhile_dropWhile_id)
  then show ?thesis
    by (metis append_eq_conv_conj takeWhile_dropWhile_id)
qed

lemma word_match: "P c \<Longrightarrow> rxMatch (Plus (Sym P)) (c # cs) = Some (takeWhile P (c # cs))"
proof -
  assume p: "P c"
  from iterGreedy_Sym_hd [of cs cs P "isWordChar c"] obtain w' rest where
    "iterGreedy (ms (Sym P)) cs (isWordChar c, cs) = (w', dropWhile P cs) # rest" by auto
  with p have "rxMatch (Plus (Sym P)) (c # cs)
      = Some (take (length (c # cs) - length (dropWhile P (c # cs))) (c # cs))"
    by (simp add: rxMatch_def Plus_def)
  then show ?thesis by (simp only: take_length_dropWhile)
qed

lemma ms_syms:
  "snd ` set (ms (seqs (map (\<lambda>c. Sym (f c)) p)) x)
     = (if length p \<le> length (snd x) \<and> list_all2 f p (take (length p) (snd x))
        then {drop (length p) (snd x)} else {})"
proof (induction p arbitrary: x)
  case Nil
  show ?case by (simp add: seqs_def)
next
  case (Cons c p)
  have s: "seqs (map (\<lambda>c. Sym (f c)) (c # p)) = Seq (Sym (f c)) (seqs (map (\<lambda>c. Sym (f c)) p))"
    by (simp add: seqs_def)
  show ?case
  proof (cases "snd x")
    case Nil
    then show ?thesis unfolding s by simp
  next
    case (Cons d ds)
    show ?thesis
    proof (cases "f c d")
      case True
      with Cons have "snd ` set (ms (seqs (map (\<lambda>c. Sym (f c)) (c # p))) x)
          = snd ` set (ms (seqs (map (\<lambda>c. Sym (f c)) p)) (isWordChar d, ds))"
        unfolding s by simp
      also have "\<dots> = (if length p \<le> length ds \<and> list_all2 f p (take (length p) ds)
        then {drop (length p) ds} else {})"
        using Cons.IH [of "(isWordChar d, ds)"] by simp
      finally show ?thesis using True Cons by simp
    next
      case False
      with Cons show ?thesis unfolding s by simp
    qed
  qed
qed

lemma LitI_syms: "LitI p = seqs (map (\<lambda>c. Sym (\<lambda>d. upc d = upc c)) p)"
  by (simp add: LitI_def ChrI_def [abs_def])

lemma Lit_syms: "Lit p = seqs (map (\<lambda>c. Sym (\<lambda>d. d = c)) p)"
  by (simp add: Lit_def Chr_def [abs_def])

lemma list_all2_upc: "length p = length v \<Longrightarrow> list_all2 (\<lambda>c d. upc d = upc c) p v = (map upc v = map upc p)"
  by (induction p v rule: list_induct2) auto

lemma toUpperCase_S: "sharpS \<in> set v \<Longrightarrow> CHR ''S'' \<in> set (toUpperCase v)"
  by (induction v) (auto simp: toUpperCase_simps)

lemma limit_match: "(rxMatch limitRegex v \<noteq> None) = (toUpperCase v = ''LIMIT'')"
proof -
  have up: "map upc ''LIMIT'' = ''LIMIT''" by code_simp
  have ns: "sharpS \<notin> set ''LIMIT''" "CHR ''S'' \<notin> set ''LIMIT''" by (simp_all add: sharpS_def)
  have "(rxMatch limitRegex v \<noteq> None) = (ms limitRegex (False, v) \<noteq> [])"
    by (simp add: rxMatch_def split: list.splits)
  also have "\<dots> = (\<exists>y \<in> set (ms (LitI ''LIMIT'') (False, v)). snd y = [])"
    by (auto simp: limitRegex_def)
  also have "\<dots> = ([] \<in> snd ` set (ms (LitI ''LIMIT'') (False, v)))"
    by force
  also have "\<dots> = (length v = 5 \<and> map upc v = ''LIMIT'')"
    unfolding LitI_syms ms_syms using list_all2_upc [of "''LIMIT''" v] up by auto
  also have "\<dots> = (toUpperCase v = ''LIMIT'')"
  proof
    assume a: "length v = 5 \<and> map upc v = ''LIMIT''"
    have "sharpS \<notin> set v"
    proof
      assume "sharpS \<in> set v"
      then have "upc sharpS \<in> set (map upc v)" by simp
      with a ns(1) show False by (simp add: upc_sharpS [THEN iffD2])
    qed
    with a show "toUpperCase v = ''LIMIT''" by (simp add: toUpperCase_plain)
  next
    assume b: "toUpperCase v = ''LIMIT''"
    with toUpperCase_S [of v] ns(2) have "sharpS \<notin> set v" by auto
    with b have m: "map upc v = ''LIMIT''" by (simp add: toUpperCase_plain)
    from arg_cong [OF m, of length] have "length v = 5" by simp
    with m show "length v = 5 \<and> map upc v = ''LIMIT''" by simp
  qed
  finally show ?thesis .
qed

lemma trimEnd_comma: "trimEnd (x @ '','' @ '' '') = x @ '',''"
  by (simp add: trimEnd_def isSpace_def)

lemma formatToken_memory:
  "previousReservedWord (snd (formatToken fm t i q))
     = (if type t \<in> {RESERVED_TOPLEVEL, RESERVED_NEWLINE, RESERVED} then t
        else previousReservedWord fm)"
  by (auto simp: formatToken_def Let_def tokenTypes_defs formatToplevelReservedWord_def
        formatOpeningParentheses_def formatClosingParentheses_def formatPlaceholder_def)

lemma formatToken_frame:
  "tokens (snd (formatToken fm t i q)) = tokens fm
   \<and> cfg (snd (formatToken fm t i q)) = cfg fm
   \<and> tokenizer (snd (formatToken fm t i q)) = tokenizer fm
   \<and> paramsP (paramsF (snd (formatToken fm t i q))) = paramsP (paramsF fm)
   \<and> indexP (paramsF (snd (formatToken fm t i q)))
       = indexP (paramsF fm)
         + (if type t = PLACEHOLDER \<and> (\<exists>xs. paramsP (paramsF fm) = Array xs) then 1 else 0)"
  by (auto simp: formatToken_def Let_def tokenTypes_defs formatToplevelReservedWord_def
        formatOpeningParentheses_def formatClosingParentheses_def formatPlaceholder_def get_def
        split: parameters.splits)

lemma forEachToken_frame:
  "tokens (snd (forEachToken fm ts i q)) = tokens fm
   \<and> cfg (snd (forEachToken fm ts i q)) = cfg fm
   \<and> tokenizer (snd (forEachToken fm ts i q)) = tokenizer fm
   \<and> paramsP (paramsF (snd (forEachToken fm ts i q))) = paramsP (paramsF fm)
   \<and> indexP (paramsF (snd (forEachToken fm ts i q)))
       = indexP (paramsF fm)
         + (if \<exists>xs. paramsP (paramsF fm) = Array xs
            then length (filter (\<lambda>t. type t = PLACEHOLDER) ts) else 0)
   \<and> previousReservedWord (snd (forEachToken fm ts i q))
       = lastReservedWord (previousReservedWord fm) ts"
proof (induction ts arbitrary: fm i q)
  case Nil
  show ?case by (simp add: lastReservedWord_def)
next
  case (Cons t ts)
  note ih = Cons.IH [of "snd (formatToken fm t i q)" "Suc i" "fst (formatToken fm t i q)"]
  note st = formatToken_frame [of fm t i q] formatToken_memory [of fm t i q]
  have m: "lastReservedWord (previousReservedWord fm) (t # ts)
      = lastReservedWord (previousReservedWord (snd (formatToken fm t i q))) ts"
    using st(2) by (simp add: lastReservedWord_def isReservedType_def)
  from ih st(1) m show ?case by (simp add: Let_def)
qed

lemma first_call:
  "format (exampleFormatter (Some (Array [''1'', ''2'']))) ''?'' = Some (Inr (''1'', afterFirstCall))"
proof -
  have t: "tokenize (newTokenizer exampleConfig) ''?''
      = Some (Inr [\<lparr>type = PLACEHOLDER, value = ''?'', key = []\<rparr>])"
    by code_simp
  have tr: "trim ''1 '' = ''1''" by code_simp
  show ?thesis
    by (simp add: format_def exampleFormatter_def newFormatter_def t tr afterFirstCall_def
          getFormattedQueryFromTokens_def formatToken_def Let_def tokenTypes_defs
          formatPlaceholder_def get_def jsToString_def newParams_def)
qed

lemma matchLength_escaped:
  "matchLength (Seq (Chr backslash) (Chr q)) s
     = (case s of a # b # cs \<Rightarrow> if a = backslash \<and> b = q then Some 2 else None | _ \<Rightarrow> None)"
  by (auto simp: matchLength_def rxMatch_def Chr_def split: list.splits)

lemma replaceAll_unescape:
  "replaceAll (Seq (Chr backslash) (Chr q)) [q] s = unescapeQuote q s"
proof (induction q s rule: unescapeQuote.induct)
  case (1 q a b cs)
  then show ?case
    by (subst replaceAll.simps) (simp add: matchLength_escaped)
next
  case (2 q a)
  have "replaceAll (Seq (Chr backslash) (Chr q)) [q] [] = []"
    by (subst replaceAll.simps) (simp add: matchLength_escaped)
  then show ?case
    by (subst replaceAll.simps) (simp add: matchLength_escaped)
next
  case (3 q)
  show ?case
    by (subst replaceAll.simps) (simp add: matchLength_escaped)
qed

lemma ms_alts_elem: "rs \<noteq> [] \<Longrightarrow> y \<in> set (ms (alts rs) x) \<Longrightarrow> \<exists>r \<in> set rs. y \<in> set (ms r x)"
  by (induction rs rule: alts.induct) auto

lemma ms_Lit: "y \<in> set (ms (Lit p) x) \<Longrightarrow> snd x = p @ snd y"
proof -
  assume "y \<in> set (ms (Lit p) x)"
  then have "snd y \<in> snd ` set (ms (seqs (map (\<lambda>c. Sym (\<lambda>d. d = c)) p)) x)"
    unfolding Lit_syms by blast
  then have l: "length p \<le> length (snd x)"
    and a: "list_all2 (\<lambda>c d. d = c) p (take (length p) (snd x))"
    and d: "snd y = drop (length p) (snd x)"
    unfolding ms_syms by (auto split: if_splits)
  from a have "take (length p) (snd x) = p"
    by (simp add: list_all2_conv_all_nth list_eq_iff_nth_eq)
  with d show ?thesis by (metis append_take_drop_id)
qed

lemma iterGreedy_Sym_all:
  "y \<in> set (iterGreedy (ms (Sym P)) fuel x) \<Longrightarrow> \<exists>u. snd x = u @ snd y \<and> list_all P u"
proof (induction fuel arbitrary: x)
  case Nil
  then show ?case by simp
next
  case (Cons c fuel)
  from Cons.prems consider "y = x"
    | z where "z \<in> set (ms (Sym P) x)" "y \<in> set (iterGreedy (ms (Sym P)) fuel z)"
    by (auto simp del: ms.simps)
  then show ?case
  proof cases
    case 1
    then show ?thesis by simp
  next
    case 2
    from 2(1) obtain d where d: "snd x = d # snd z" "P d"
      by (cases "snd x") (auto split: if_splits)
    from Cons.IH [OF 2(2)] obtain u where "snd z = u @ snd y" "list_all P u" by blast
    with d have "snd x = (d # u) @ snd y \<and> list_all P (d # u)" by simp
    then show ?thesis by blast
  qed
qed

lemma ms_Plus_Sym:
  "y \<in> set (ms (Plus (Sym P)) x) \<Longrightarrow> \<exists>u. snd x = u @ snd y \<and> list_all P u \<and> u \<noteq> []"
proof -
  assume "y \<in> set (ms (Plus (Sym P)) x)"
  then obtain z where z: "z \<in> set (ms (Sym P) x)" "y \<in> set (iterGreedy (ms (Sym P)) (snd z) z)"
    unfolding Plus_def by (auto simp del: ms.simps(2))
  from z(1) obtain d where d: "snd x = d # snd z" "P d"
    by (cases "snd x") (auto split: if_splits)
  from iterGreedy_Sym_all [OF z(2)] obtain u where "snd z = u @ snd y" "list_all P u" by blast
  with d have "snd x = (d # u) @ snd y \<and> list_all P (d # u) \<and> d # u \<noteq> []" by simp
  then show ?thesis by blast
qed

lemma ms_Star_Sym:
  "y \<in> set (ms (Star (Sym P)) x) \<Longrightarrow> \<exists>u. snd x = u @ snd y \<and> list_all P u"
  using iterGreedy_Sym_all by simp

lemma rxMatch_prefixed:
  assumes "rxMatch (createPlaceholderRegex ps body) s = Some m" "ps \<noteq> []"
    and "\<And>x y. y \<in> set (ms body x) \<Longrightarrow> \<exists>u. snd x = u @ snd y \<and> Q u"
  shows "\<exists>p \<in> set ps. \<exists>u. m = p @ u \<and> Q u"
proof -
  from assms(1) obtain y ys where
    y: "ms (createPlaceholderRegex ps body) (False, s) = y # ys"
    and m: "m = take (length s - length (snd y)) s"
    by (auto simp: rxMatch_def split: list.splits)
  from y have "y \<in> set (ms (Seq (alts (map Lit ps)) body) (False, s))"
    by (simp add: createPlaceholderRegex_def)
  then obtain z where z: "z \<in> set (ms (alts (map Lit ps)) (False, s))" "y \<in> set (ms body z)"
    by auto
  from ms_alts_elem [OF _ z(1)] assms(2) obtain p where
    p: "p \<in> set ps" "z \<in> set (ms (Lit p) (False, s))" by auto
  from ms_Lit [OF p(2)] have s: "s = p @ snd z" by simp
  from assms(3) [OF z(2)] obtain u where u: "snd z = u @ snd y" "Q u" by blast
  from s u m have "m = p @ u" by simp
  with p(1) u(2) show ?thesis by blast
qed

lemma escapedQuoteRegex_closing:
  "(quote, q) \<in> set quotePairs \<Longrightarrow> escapedQuoteRegex [q] = Inr (Seq (Chr backslash) (Chr q))"
  by (auto simp: escapedQuoteRegex_def quotePairs_def backtick_def dquote_def squote_def
        backslash_def)

lemma unescapeQuote_id: "backslash \<notin> set s \<Longrightarrow> unescapeQuote q s = s"
  by (induction q s rule: unescapeQuote.induct) auto

text \<open>The indent stack and the inline-block flag through the Printer.\<close>

lemma formatToken_state:
  "(indentation (snd (formatToken fm t i q)), inlineBlock (snd (formatToken fm t i q)))
     = stateStep (indentation fm, inlineBlock fm) (tokens fm) t i"
  by (auto simp: formatToken_def stateStep_def Let_def tokenTypes_defs
        formatToplevelReservedWord_def formatOpeningParentheses_def
        formatClosingParentheses_def formatPlaceholder_def)

lemma forEachToken_state:
  "(indentation (snd (forEachToken fm ts i q)), inlineBlock (snd (forEachToken fm ts i q)))
     = printerState (indentation fm, inlineBlock fm) (tokens fm) ts i"
proof (induction ts arbitrary: fm i q)
  case Nil
  show ?case by simp
next
  case (Cons t ts)
  from Cons.IH [of "snd (formatToken fm t i q)" "Suc i" "fst (formatToken fm t i q)"]
    formatToken_state [of fm t i q] formatToken_frame [of fm t i q]
  show ?case by (simp add: Let_def)
qed

lemma printerState_idle:
  "list_all (\<lambda>t. type t \<notin> set [RESERVED_TOPLEVEL, OPEN_PAREN, CLOSE_PAREN]) ts \<Longrightarrow>
     printerState s toks ts i = s"
  by (induction ts arbitrary: i) (simp_all add: stateStep_def)

lemma bracket_call:
  "format (exampleFormatter None) ''('' = Some (Inr (''('', insideBracket))"
proof -
  have t: "tokenize (newTokenizer exampleConfig) ''(''
      = Some (Inr [\<lparr>type = ''open-paren'', value = ''('', key = []\<rparr>])"
    by code_simp
  have tr: "trim (trimEnd (trimEnd [] @ ''('') @ [newline, CHR '' '', CHR '' '']) = ''(''"
    by code_simp
  have sc: "\<not> shouldInline 50 [\<lparr>type = ''open-paren'', value = ''('', key = []\<rparr>] 0"
    by code_simp
  show ?thesis
    by (simp add: format_def exampleFormatter_def newFormatter_def t tr sc insideBracket_def
          getFormattedQueryFromTokens_def formatToken_def Let_def tokenTypes_defs
          formatOpeningParentheses_def beginIfPossible_def isActive_def newInlineBlock_def
          newIndentation_def increaseBlockLevel_def addNewline_def getIndent_def previousToken_def
          newParams_def)
qed

lemma inside_call:
  "format insideBracket ''a''
     = Some (Inr (''a'', insideBracket\<lparr>tokens := [\<lparr>type = WORD, value = ''a'', key = []\<rparr>]\<rparr>))"
proof -
  have t: "tokenize (newTokenizer exampleConfig) ''a''
      = Some (Inr [\<lparr>type = ''word'', value = ''a'', key = []\<rparr>])"
    by code_simp
  have tr: "trim ''a '' = ''a''" by code_simp
  show ?thesis
    by (simp add: format_def exampleFormatter_def newFormatter_def t tr insideBracket_def
          getFormattedQueryFromTokens_def formatToken_def Let_def tokenTypes_defs
          formatWithSpaces_def)
qed

lemma inline_call:
  "format insideInline ''a, b''
     = Some (Inr (''a, b'', insideInline\<lparr>tokens := [\<lparr>type = WORD, value = ''a'', key = []\<rparr>,
          \<lparr>type = OPERATOR, value = '','', key = []\<rparr>, \<lparr>type = WHITESPACE, value = '' '', key = []\<rparr>,
          \<lparr>type = WORD, value = ''b'', key = []\<rparr>], index := 3\<rparr>))"
proof -
  have t: "tokenize (newTokenizer exampleConfig) ''a, b''
      = Some (Inr [\<lparr>type = ''word'', value = ''a'', key = []\<rparr>,
          \<lparr>type = ''operator'', value = '','', key = []\<rparr>, \<lparr>type = ''whitespace'', value = '' '', key = []\<rparr>,
          \<lparr>type = ''word'', value = ''b'', key = []\<rparr>])"
    by code_simp
  have tr: "trim ''a, b '' = ''a, b''" "trimEnd ''a '' = ''a''" by code_simp+
  show ?thesis
    by (simp add: format_def exampleFormatter_def newFormatter_def t tr insideInline_def
          getFormattedQueryFromTokens_def formatToken_def Let_def tokenTypes_defs
          formatWithSpaces_def formatComma_def isActive_def trimTrailingWhitespace_def
          previousNonWhitespaceToken_def previousNonWhitespaceFrom.simps previousToken_def)
qed

text \<open>The Printer adds and removes whitespace only.\<close>

lemma visible_simps:
  "visible [] = []"
  "visible (c # s) = (if isSpace c then visible s else c # visible s)"
  "visible (a @ b) = visible a @ visible b"
  by (simp_all add: visible_def)

lemma isSpace_blank: "isSpace (CHR '' '')" "isSpace newline"
  by (simp_all add: isSpace_def newline_def)

lemma filter_dropWhile_neg: "filter (\<lambda>c. \<not> P c) (dropWhile P xs) = filter (\<lambda>c. \<not> P c) xs"
  by (induction xs) simp_all

lemma visible_trimEnd: "visible (trimEnd s) = visible s"
proof -
  have "visible (trimEnd s) = rev (filter (\<lambda>c. \<not> isSpace c) (dropWhile isSpace (rev s)))"
    by (simp add: visible_def trimEnd_def rev_filter)
  also have "\<dots> = rev (filter (\<lambda>c. \<not> isSpace c) (rev s))"
    by (simp only: filter_dropWhile_neg)
  also have "\<dots> = visible s"
    by (simp add: visible_def rev_filter)
  finally show ?thesis .
qed

lemma visible_trim: "visible (trim s) = visible s"
  using visible_trimEnd [of s] by (simp add: trim_def visible_def filter_dropWhile_neg)

lemma visible_spaces: "list_all isSpace s \<Longrightarrow> visible s = []"
  by (induction s) (simp_all add: visible_def)

lemma visible_getIndent: "list_all isSpace (indentI ind) \<Longrightarrow> visible (getIndent ind) = []"
proof -
  assume a: "list_all isSpace (indentI ind)"
  have "list_all isSpace (concat (replicate n (indentI ind)))" for n
    using a by (induction n) simp_all
  then show ?thesis unfolding getIndent_def by (rule visible_spaces)
qed

lemma visible_addNewline:
  "list_all isSpace (indentI (indentation fm)) \<Longrightarrow> visible (addNewline fm q) = visible q"
  by (simp add: addNewline_def visible_simps visible_trimEnd visible_getIndent isSpace_blank)

lemma visible_trimTrailingWhitespace: "visible (trimTrailingWhitespace fm q) = visible q"
  by (simp add: trimTrailingWhitespace_def visible_simps visible_trimEnd isSpace_blank)

lemma visible_equalizeWhitespace: "visible (equalizeWhitespace v) = visible v"
proof (induction v rule: equalizeWhitespace.induct)
  case 1
  show ?case by simp
next
  case (2 c cs)
  show ?case
  proof (cases "isSpace c")
    case True
    from "2.IH"(1) [OF True, unfolded visible_def] True isSpace_blank(1) show ?thesis
      by (simp add: visible_def filter_dropWhile_neg)
  next
    case False
    with "2.IH"(2) show ?thesis by (simp add: visible_def)
  qed
qed

lemma visible_indentComment:
  "list_all isSpace (indentI (indentation fm)) \<Longrightarrow> visible (indentComment fm v) = visible v"
proof -
  assume a: "list_all isSpace (indentI (indentation fm))"
  have g: "filter (\<lambda>c. \<not> isSpace c) (getIndent (indentation fm)) = []"
    using visible_getIndent [OF a] by (simp add: visible_def)
  show ?thesis
    unfolding indentComment_def visible_def
    by (induction v) (simp_all add: g isSpace_blank)
qed

lemma indentI_steps:
  "indentI (increaseToplevel ind) = indentI ind" "indentI (increaseBlockLevel ind) = indentI ind"
  "indentI (decreaseTopLevel ind) = indentI ind" "indentI (decreaseBlockLevel ind) = indentI ind"
  by (simp_all add: increaseToplevel_def increaseBlockLevel_def decreaseTopLevel_def
        decreaseBlockLevel_def split: list.splits marker.splits)

lemma stateStep_indentI: "indentI (fst (stateStep s toks t i)) = indentI (fst s)"
  by (simp add: stateStep_def indentI_steps)

lemma formatToken_indentI:
  "indentI (indentation (snd (formatToken fm t i q))) = indentI (indentation fm)"
proof -
  have "fst (indentation (snd (formatToken fm t i q)), inlineBlock (snd (formatToken fm t i q)))
      = fst (stateStep (indentation fm, inlineBlock fm) (tokens fm) t i)"
    by (simp only: formatToken_state)
  then have "indentation (snd (formatToken fm t i q))
      = fst (stateStep (indentation fm, inlineBlock fm) (tokens fm) t i)"
    by simp
  then show ?thesis by (simp add: stateStep_indentI)
qed

lemma visible_formatToplevelReservedWord:
  "list_all isSpace (indentI (indentation fm)) \<Longrightarrow>
     visible (fst (formatToplevelReservedWord fm t q)) = visible q @ visible (value t)"
  by (simp add: formatToplevelReservedWord_def Let_def visible_addNewline indentI_steps
        visible_simps(3) visible_equalizeWhitespace)

lemma visible_formatOpeningParentheses:
  "list_all isSpace (indentI (indentation fm)) \<Longrightarrow>
     visible (fst (formatOpeningParentheses fm t q)) = visible q @ visible (value t)"
  by (simp add: formatOpeningParentheses_def Let_def visible_addNewline indentI_steps
        visible_simps(3) visible_trimEnd)

lemma visible_formatClosingParentheses:
  "list_all isSpace (indentI (indentation fm)) \<Longrightarrow>
     visible (fst (formatClosingParentheses fm t q)) = visible q @ visible (value t)"
  by (simp add: formatClosingParentheses_def Let_def visible_addNewline indentI_steps
        visible_simps formatWithSpaceAfter_def formatWithSpaces_def
        visible_trimTrailingWhitespace isSpace_blank)

lemma visible_formatComma:
  "list_all isSpace (indentI (indentation fm)) \<Longrightarrow>
     visible (formatComma fm t q) = visible q @ visible (value t)"
  by (simp add: formatComma_def Let_def visible_addNewline visible_simps
        visible_trimTrailingWhitespace isSpace_blank)

lemma visible_comments:
  assumes "list_all isSpace (indentI (indentation fm))"
  shows "visible (formatLineComment fm t q) = visible q @ visible (value t)"
    "visible (formatBlockComment fm t q) = visible q @ visible (value t)"
    "visible (formatNewlineReservedWord fm t q) = visible q @ visible (value t)"
  using assms
  by (simp_all add: formatLineComment_def formatBlockComment_def formatNewlineReservedWord_def
        visible_addNewline visible_simps visible_indentComment visible_equalizeWhitespace
        isSpace_blank)

lemma visible_plain:
  "visible (formatWithSpaces t q) = visible q @ visible (value t)"
  "visible (formatWithSpaceAfter fm t q) = visible q @ visible (value t)"
  "visible (formatWithoutSpaces fm t q) = visible q @ visible (value t)"
  "visible (formatQuerySeparator fm t q) = visible q @ visible (value t)"
  "visible (fst (formatPlaceholder fm t q)) = visible q @ visible (jsToString (fst (get (paramsF fm) t)))"
  by (simp_all add: formatWithSpaces_def formatWithSpaceAfter_def formatWithoutSpaces_def
        formatQuerySeparator_def formatPlaceholder_def Let_def visible_simps
        visible_trimTrailingWhitespace isSpace_blank)

lemma formatToken_visible:
  assumes "list_all isSpace (indentI (indentation fm))"
  shows "visible (fst (formatToken fm t i q))
     = visible q @ visible (if type t = WHITESPACE then []
                            else if type t = PLACEHOLDER then jsToString (fst (get (paramsF fm) t))
                            else value t)"
proof -
  have a: "list_all isSpace (indentI (indentation (fm\<lparr>index := i\<rparr>)))" using assms by simp
  have p: "paramsF (fm\<lparr>index := i\<rparr>) = paramsF fm" by simp
  note v = visible_formatToplevelReservedWord [OF a] visible_formatOpeningParentheses [OF a]
    visible_formatClosingParentheses [OF a] visible_formatComma [OF a] visible_comments [OF a]
    visible_plain
  have d: "PLACEHOLDER \<noteq> WHITESPACE" "PLACEHOLDER \<noteq> LINE_COMMENT" "PLACEHOLDER \<noteq> BLOCK_COMMENT"
    "PLACEHOLDER \<noteq> RESERVED_TOPLEVEL" "PLACEHOLDER \<noteq> RESERVED_NEWLINE" "PLACEHOLDER \<noteq> RESERVED"
    "PLACEHOLDER \<noteq> OPEN_PAREN" "PLACEHOLDER \<noteq> CLOSE_PAREN"
    by (simp_all add: tokenTypes_defs)
  show ?thesis
    unfolding formatToken_def Let_def
    using d by (auto simp: v p visible_simps(1))
qed

lemma formatToken_params:
  "paramsF (snd (formatToken fm t i q))
     = (if type t = PLACEHOLDER then snd (get (paramsF fm) t) else paramsF fm)"
  by (auto simp: formatToken_def Let_def tokenTypes_defs formatToplevelReservedWord_def
        formatOpeningParentheses_def formatClosingParentheses_def formatPlaceholder_def)

lemma forEachToken_visible:
  "list_all isSpace (indentI (indentation fm)) \<Longrightarrow>
     visible (fst (forEachToken fm ts i q))
       = visible q @ visible (concat (printedTexts (paramsF fm) ts))"
proof (induction ts arbitrary: fm i q)
  case Nil
  show ?case by (simp add: visible_simps(1))
next
  case (Cons t ts)
  from Cons.prems formatToken_indentI [of fm t i q]
  have a: "list_all isSpace (indentI (indentation (snd (formatToken fm t i q))))" by simp
  have d: "PLACEHOLDER \<noteq> WHITESPACE" by (simp add: tokenTypes_defs)
  from Cons.IH [OF a, of "Suc i" "fst (formatToken fm t i q)"]
    formatToken_visible [OF Cons.prems, of t i q] formatToken_params [of fm t i q] d
  show ?case by (auto simp: Let_def visible_simps(1,3))
qed

text \<open>What the Printer has written stays in the output.\<close>

lemma occursIn_iff: "occursIn w out = (\<exists>pre post. out = pre @ w @ post)"
proof
  assume "occursIn w out"
  then obtain k where k: "take (length w) (drop k out) = w"
    by (auto simp: occursIn_def list_ex_iff)
  have "drop k out = take (length w) (drop k out) @ drop (length w) (drop k out)"
    by (simp only: append_take_drop_id)
  with k have "drop k out = w @ drop (length w) (drop k out)" by simp
  then have "out = take k out @ w @ drop (length w) (drop k out)"
    by (metis append_take_drop_id)
  then show "\<exists>pre post. out = pre @ w @ post" by blast
next
  assume "\<exists>pre post. out = pre @ w @ post"
  then obtain pre post where o: "out = pre @ w @ post" by blast
  then have "take (length w) (drop (length pre) out) = w" "length pre < Suc (length out)"
    by simp_all
  then show "occursIn w out"
    unfolding occursIn_def list_ex_iff by (metis atLeastLessThan_iff set_upt zero_le)
qed

lemma dropWhile_last:
  "xs \<noteq> [] \<Longrightarrow> \<not> P (last xs) \<Longrightarrow> dropWhile P xs \<noteq> [] \<and> last (dropWhile P xs) = last xs"
  by (induction xs) (auto split: if_splits)

lemma equalizeWhitespace_last:
  "v \<noteq> [] \<Longrightarrow> \<not> isSpace (last v) \<Longrightarrow>
     equalizeWhitespace v \<noteq> [] \<and> \<not> isSpace (last (equalizeWhitespace v))"
proof (induction v rule: equalizeWhitespace.induct)
  case 1
  then show ?case by simp
next
  case (2 c cs)
  show ?case
  proof (cases "isSpace c")
    case True
    with "2.prems" have cs: "cs \<noteq> []" "\<not> isSpace (last cs)" by (auto split: if_splits)
    from dropWhile_last [of cs isSpace, OF cs] have d: "dropWhile isSpace cs \<noteq> []"
      "\<not> isSpace (last (dropWhile isSpace cs))" using cs(2) by simp_all
    from "2.IH"(1) [OF True d] True show ?thesis by simp
  next
    case False
    show ?thesis
    proof (cases "cs = []")
      case True
      with False show ?thesis by simp
    next
      case ne: False
      with "2.prems" have "\<not> isSpace (last cs)" by simp
      from "2.IH"(2) [OF False ne this] False show ?thesis by simp
    qed
  qed
qed

lemma trimEnd_keep: "w \<noteq> [] \<Longrightarrow> \<not> isSpace (last w) \<Longrightarrow> trimEnd (x @ w) = x @ w"
proof -
  assume w: "w \<noteq> []" "\<not> isSpace (last w)"
  from w(1) have "rev (x @ w) = rev (x @ butlast w @ [last w])" by simp
  then have r: "rev (x @ w) = last w # rev (x @ butlast w)" by simp
  have "trimEnd (x @ w) = rev (dropWhile isSpace (last w # rev (x @ butlast w)))"
    unfolding trimEnd_def r ..
  also have "\<dots> = rev (last w # rev (x @ butlast w))" using w(2) by simp
  also have "\<dots> = x @ w" using w(1) by simp
  finally show ?thesis .
qed

lemma trimEnd_blank: "trimEnd (a @ '' '') = trimEnd a"
  by (simp add: trimEnd_def isSpace_def)

lemma occursIn_mid: "occursIn w (a @ w @ b)"
  unfolding occursIn_iff by blast

lemma occursIn_end: "occursIn w (a @ w)"
  unfolding occursIn_iff by (metis append_Nil2)

lemma occursIn_app: "occursIn w a \<Longrightarrow> occursIn w (a @ b)"
  unfolding occursIn_iff by (metis append.assoc)

lemma occursIn_addNewline:
  "w \<noteq> [] \<Longrightarrow> \<not> isSpace (last w) \<Longrightarrow> occursIn w (addNewline fm (x @ w))"
  unfolding addNewline_def by (simp add: trimEnd_keep occursIn_mid)

lemma occursIn_formatComma:
  assumes "value t \<noteq> []" "\<not> isSpace (last (value t))"
  shows "occursIn (value t) (formatComma fm t q)"
proof -
  have "trimEnd (trimTrailingWhitespace fm q @ value t @ '' '')
      = trimTrailingWhitespace fm q @ value t"
    using trimEnd_blank [of "trimTrailingWhitespace fm q @ value t"] trimEnd_keep [OF assms]
    by simp
  then show ?thesis
    by (auto simp: formatComma_def Let_def addNewline_def occursIn_mid)
qed

lemma occursIn_formatToplevelReservedWord:
  assumes "value t \<noteq> []" "\<not> isSpace (last (value t))"
  shows "occursIn (equalizeWhitespace (value t)) (fst (formatToplevelReservedWord fm t q))"
  using equalizeWhitespace_last [OF assms]
  by (simp add: formatToplevelReservedWord_def Let_def occursIn_addNewline)

lemma occursIn_formatOpeningParentheses:
  assumes "value t \<noteq> []" "\<not> isSpace (last (value t))"
  shows "occursIn (value t) (fst (formatOpeningParentheses fm t q))"
  using assms
  by (simp add: formatOpeningParentheses_def Let_def occursIn_addNewline occursIn_end)

lemma occursIn_formatClosingParentheses:
  "occursIn (value t) (fst (formatClosingParentheses fm t q))"
  by (simp add: formatClosingParentheses_def Let_def formatWithSpaceAfter_def
        formatWithSpaces_def occursIn_mid)

lemma occursIn_if: "occursIn w a \<Longrightarrow> occursIn w b \<Longrightarrow> occursIn w (if c then a else b)"
  by simp

lemma occursIn_punctuation:
  assumes "value t \<noteq> []" "\<not> isSpace (last (value t))"
  shows "occursIn (value t)
     (if value t = '','' then formatComma fm t q
      else if value t = '':'' then formatWithSpaceAfter fm t q
      else if value t = ''.'' then formatWithoutSpaces fm t q
      else if value t = '';'' then formatQuerySeparator fm t q
      else formatWithSpaces t q)"
proof (intro occursIn_if)
  show "occursIn (value t) (formatComma fm t q)"
    by (rule occursIn_formatComma [OF assms])
  show "occursIn (value t) (formatWithSpaceAfter fm t q)"
    unfolding formatWithSpaceAfter_def by (rule occursIn_mid)
  show "occursIn (value t) (formatWithoutSpaces fm t q)"
    unfolding formatWithoutSpaces_def by (rule occursIn_end)
  show "occursIn (value t) (formatQuerySeparator fm t q)"
    unfolding formatQuerySeparator_def
    using occursIn_mid [of "value t" "trimTrailingWhitespace fm q @ [newline]"] by simp
  show "occursIn (value t) (formatWithSpaces t q)"
    unfolding formatWithSpaces_def by (rule occursIn_mid)
qed

lemma occursIn_formatToken:
  assumes "type t \<notin> set [WHITESPACE, LINE_COMMENT, BLOCK_COMMENT, PLACEHOLDER]"
    "value t \<noteq> []" "\<not> isSpace (last (value t))"
  shows "occursIn (written t) (fst (formatToken fm t i q))"
proof -
  let ?f = "fm\<lparr>index := i\<rparr>"
  consider (top) "type t = RESERVED_TOPLEVEL" | (new) "type t = RESERVED_NEWLINE"
    | (res) "type t = RESERVED" | (opn) "type t = OPEN_PAREN" | (cls) "type t = CLOSE_PAREN"
    | (oth) "type t \<notin> set [WHITESPACE, LINE_COMMENT, BLOCK_COMMENT, PLACEHOLDER,
               RESERVED_TOPLEVEL, RESERVED_NEWLINE, RESERVED, OPEN_PAREN, CLOSE_PAREN]"
    using assms(1) by auto
  then show ?thesis
  proof cases
    case top
    then have "fst (formatToken fm t i q) = fst (formatToplevelReservedWord ?f t q)"
      and "written t = equalizeWhitespace (value t)"
      by (simp_all add: formatToken_def Let_def written_def tokenTypes_defs)
    then show ?thesis using occursIn_formatToplevelReservedWord [OF assms(2,3)] by simp
  next
    case new
    then have "fst (formatToken fm t i q) = formatNewlineReservedWord ?f t q"
      and "written t = equalizeWhitespace (value t)"
      by (simp_all add: formatToken_def Let_def written_def tokenTypes_defs)
    then show ?thesis unfolding formatNewlineReservedWord_def using occursIn_mid by simp
  next
    case res
    then have "fst (formatToken fm t i q) = formatWithSpaces t q" and "written t = value t"
      by (simp_all add: formatToken_def Let_def written_def tokenTypes_defs)
    then show ?thesis unfolding formatWithSpaces_def using occursIn_mid by simp
  next
    case opn
    then have "fst (formatToken fm t i q) = fst (formatOpeningParentheses ?f t q)"
      and "written t = value t"
      by (simp_all add: formatToken_def Let_def written_def tokenTypes_defs)
    then show ?thesis using occursIn_formatOpeningParentheses [OF assms(2,3)] by simp
  next
    case cls
    then have "fst (formatToken fm t i q) = fst (formatClosingParentheses ?f t q)"
      and "written t = value t"
      by (simp_all add: formatToken_def Let_def written_def tokenTypes_defs)
    then show ?thesis using occursIn_formatClosingParentheses by simp
  next
    case oth
    then have "fst (formatToken fm t i q) =
     (if value t = '','' then formatComma ?f t q
      else if value t = '':'' then formatWithSpaceAfter ?f t q
      else if value t = ''.'' then formatWithoutSpaces ?f t q
      else if value t = '';'' then formatQuerySeparator ?f t q
      else formatWithSpaces t q)" and "written t = value t"
      by (simp_all add: formatToken_def Let_def written_def)
    then show ?thesis using occursIn_punctuation [OF assms(2,3)] by simp
  qed
qed

lemma trimEnd_after: "a \<noteq> [] \<Longrightarrow> \<not> isSpace (last a) \<Longrightarrow> trimEnd (a @ b) = a @ trimEnd b"
proof -
  assume a: "a \<noteq> []" "\<not> isSpace (last a)"
  then have h: "dropWhile isSpace (rev a) = rev a"
    by (cases a rule: rev_cases) simp_all
  show ?thesis
  proof (cases "\<forall>x \<in> set (rev b). isSpace x")
    case True
    then have "dropWhile isSpace (rev b @ rev a) = dropWhile isSpace (rev a)"
      by (intro dropWhile_append2) blast
    moreover from True have "dropWhile isSpace (rev b) = []" by simp
    ultimately show ?thesis using h by (simp add: trimEnd_def)
  next
    case False
    then obtain x where "x \<in> set (rev b)" "\<not> isSpace x" by blast
    then have "dropWhile isSpace (rev b @ rev a) = dropWhile isSpace (rev b) @ rev a"
      by (rule dropWhile_append1)
    then show ?thesis by (simp add: trimEnd_def)
  qed
qed

lemma keep_trimEnd:
  assumes "occursIn w q" "w \<noteq> []" "\<not> isSpace (last w)"
  shows "occursIn w (trimEnd q)"
proof -
  from assms(1) obtain pre post where q: "q = pre @ w @ post" unfolding occursIn_iff by blast
  from assms(2,3) have "pre @ w \<noteq> []" "\<not> isSpace (last (pre @ w))" by simp_all
  from trimEnd_after [OF this, of post] q have "trimEnd q = pre @ w @ trimEnd post" by simp
  then show ?thesis unfolding occursIn_iff by blast
qed

lemma keep_dropWhile:
  assumes "occursIn w q" "w \<noteq> []" "\<not> isSpace (hd w)"
  shows "occursIn w (dropWhile isSpace q)"
proof -
  from assms(1) obtain pre post where q: "q = pre @ w @ post" unfolding occursIn_iff by blast
  from assms(2,3) have h: "dropWhile isSpace (w @ post) = w @ post"
    by (cases w) simp_all
  show ?thesis
  proof (cases "\<forall>x \<in> set pre. isSpace x")
    case True
    then have "dropWhile isSpace (pre @ w @ post) = dropWhile isSpace (w @ post)"
      by (intro dropWhile_append2) blast
    with h q have "dropWhile isSpace q = [] @ w @ post" by simp
    then show ?thesis unfolding occursIn_iff by blast
  next
    case False
    then obtain x where "x \<in> set pre" "\<not> isSpace x" by blast
    then have "dropWhile isSpace (pre @ w @ post) = dropWhile isSpace pre @ w @ post"
      by (rule dropWhile_append1)
    with q have "dropWhile isSpace q = dropWhile isSpace pre @ w @ post" by simp
    then show ?thesis unfolding occursIn_iff by blast
  qed
qed

lemma keep_trim:
  "occursIn w q \<Longrightarrow> w \<noteq> [] \<Longrightarrow> \<not> isSpace (hd w) \<Longrightarrow> \<not> isSpace (last w) \<Longrightarrow> occursIn w (trim q)"
  unfolding trim_def by (rule keep_dropWhile) (simp_all add: keep_trimEnd)

lemma keep_steps:
  assumes "occursIn w q" "w \<noteq> []" "\<not> isSpace (last w)"
  shows "occursIn w (addNewline fm q)" "occursIn w (trimTrailingWhitespace fm q)"
  using keep_trimEnd [OF assms]
  by (simp_all add: addNewline_def trimTrailingWhitespace_def occursIn_app)

lemma keep_formatToken:
  assumes "occursIn w q" "w \<noteq> []" "\<not> isSpace (last w)"
  shows "occursIn w (fst (formatToken fm t i q))"
proof -
  note k = keep_steps [OF _ assms(2,3)] keep_trimEnd [OF _ assms(2,3)]
  have a: "\<And>f x. occursIn w (addNewline f (q @ x))"
    "\<And>f g x. occursIn w (addNewline f (addNewline g q @ x))"
    "\<And>f x y. occursIn w (addNewline f q @ x)"
    "\<And>f x. occursIn w (trimTrailingWhitespace f q @ x)"
    "\<And>f x. occursIn w (addNewline f (trimEnd q @ x))"
    "\<And>x. occursIn w (trimEnd q @ x)"
    "\<And>x. occursIn w (q @ x)"
    "\<And>f g x. occursIn w (addNewline f (trimTrailingWhitespace g q @ x))"
    using assms(1) by (auto intro!: k occursIn_app)
  show ?thesis
    unfolding formatToken_def Let_def formatLineComment_def formatBlockComment_def
      formatToplevelReservedWord_def formatNewlineReservedWord_def formatWithSpaces_def
      formatWithSpaceAfter_def formatWithoutSpaces_def formatQuerySeparator_def
      formatOpeningParentheses_def formatClosingParentheses_def formatPlaceholder_def
      formatComma_def
    using assms(1) by (auto simp: a)
qed

lemma keep_forEachToken:
  "occursIn w q \<Longrightarrow> w \<noteq> [] \<Longrightarrow> \<not> isSpace (last w) \<Longrightarrow> occursIn w (fst (forEachToken fm ts i q))"
proof (induction ts arbitrary: fm i q)
  case Nil
  then show ?case by simp
next
  case (Cons t ts)
  from keep_formatToken [OF Cons.prems, of fm t i]
  have "occursIn w (fst (formatToken fm t i q))" .
  from Cons.IH [OF this Cons.prems(2,3)] show ?case by (simp add: Let_def)
qed

lemma written_ends:
  assumes "value t \<noteq> []" "\<not> isSpace (hd (value t))" "\<not> isSpace (last (value t))"
  shows "written t \<noteq> [] \<and> \<not> isSpace (hd (written t)) \<and> \<not> isSpace (last (written t))"
proof -
  from assms(1,2) obtain c cs where v: "value t = c # cs" "\<not> isSpace c"
    by (cases "value t") auto
  then have "hd (equalizeWhitespace (value t)) = c" by simp
  with v equalizeWhitespace_last [OF assms(1,3)] assms show ?thesis
    by (simp add: written_def)
qed

lemma forEachToken_occurs:
  assumes "t \<in> set ts" "type t \<notin> set [WHITESPACE, LINE_COMMENT, BLOCK_COMMENT, PLACEHOLDER]"
    "value t \<noteq> []" "\<not> isSpace (hd (value t))" "\<not> isSpace (last (value t))"
  shows "occursIn (written t) (fst (forEachToken fm ts i q))"
  using assms(1)
proof (induction ts arbitrary: fm i q)
  case Nil
  then show ?case by simp
next
  case (Cons u ts)
  show ?case
  proof (cases "t = u")
    case True
    from occursIn_formatToken [OF assms(2,3,5), of fm i q] True
    have "occursIn (written t) (fst (formatToken fm u i q))" by simp
    from keep_forEachToken [OF this] written_ends [OF assms(3,4,5)]
    show ?thesis by (simp add: Let_def)
  next
    case False
    with Cons.prems have "t \<in> set ts" by simp
    from Cons.IH [OF this] show ?thesis by (simp add: Let_def)
  qed
qed

lemma toUpperCase_fixed: "(toUpperCase v = v) = (\<forall>c \<in> set v. c \<noteq> sharpS \<and> upc c = c)"
proof (induction v)
  case Nil
  show ?case by (simp add: toUpperCase_simps)
next
  case (Cons c v)
  have s: "CHR ''S'' \<noteq> sharpS" by (simp add: sharpS_def)
  show ?case
  proof (cases "c = sharpS")
    case True
    with s show ?thesis by (auto simp: toUpperCase_simps)
  next
    case False
    with Cons show ?thesis by (auto simp: toUpperCase_simps)
  qed
qed

lemma set_equalizeWhitespace: "set (equalizeWhitespace v) \<subseteq> insert (CHR 0x20) (set v)"
proof (induction v rule: equalizeWhitespace.induct)
  case 1
  show ?case by simp
next
  case (2 c cs)
  show ?case
  proof (cases "isSpace c")
    case True
    from "2.IH"(1) [OF True] set_dropWhileD [of _ isSpace cs] True show ?thesis by auto
  next
    case False
    from "2.IH"(2) [OF False] False show ?thesis by auto
  qed
qed

lemma written_upper: "toUpperCase (value t) = value t \<Longrightarrow> toUpperCase (written t) = written t"
proof -
  assume a: "toUpperCase (value t) = value t"
  have b: "CHR 0x20 \<noteq> sharpS" "upc (CHR 0x20) = CHR 0x20" by code_simp+
  from a have "\<forall>c \<in> set (value t). c \<noteq> sharpS \<and> upc c = c"
    by (simp add: toUpperCase_fixed)
  with b set_equalizeWhitespace [of "value t"]
  have "\<forall>c \<in> set (equalizeWhitespace (value t)). c \<noteq> sharpS \<and> upc c = c" by auto
  then have "toUpperCase (equalizeWhitespace (value t)) = equalizeWhitespace (value t)"
    by (simp add: toUpperCase_fixed)
  with a show ?thesis by (simp add: written_def)
qed

section \<open>Placeholder resolution\<close>

text \<open>
  C7. Placeholder resolution: with a mapping that contains the key of the token, the
  mapped string is returned; with an ordered sequence, the element at the running counter
  is returned whatever the token is, and the counter goes up by one, so that two
  placeholders in a row receive two consecutive elements; with a mapping without the key,
  and with no parameter source at all, the text of the token is returned. In
  \<open>a = ? AND b = ?\<close> with the parameters 1 and 2 the first placeholder becomes 1 and the
  second becomes 2.
\<close>

theorem placeholder_resolution:
  "(paramsP p = Record kvs \<and> map_of kvs (key t) = Some v \<longrightarrow> get p t = (Some v, p))
   \<and> (paramsP p = Array xs \<longrightarrow>
        get p t = (if indexP p < length xs then Some (xs ! indexP p) else None,
                   p\<lparr>indexP := Suc (indexP p)\<rparr>))
   \<and> (paramsP (paramsF fm) = Array xs \<and> Suc (indexP (paramsF fm)) < length xs \<longrightarrow>
        fst (formatPlaceholder (snd (formatPlaceholder fm t q)) t' (fst (formatPlaceholder fm t q)))
          = q @ xs ! indexP (paramsF fm) @ '' '' @ xs ! Suc (indexP (paramsF fm)) @ '' '')
   \<and> (paramsP p = Record kvs \<and> map_of kvs (key t) = None \<longrightarrow> get p t = (Some (value t), p))
   \<and> get (newParams None) t = (Some (value t), newParams None)
   \<and> formatText (exampleFormatter (Some (Array [''1'', ''2'']))) ''a = ? AND b = ?''
         = Some (Inr ''a = 1\<newline>AND b = 2'')"
proof -
  have a: "paramsP p = Record kvs \<and> map_of kvs (key t) = Some v \<longrightarrow> get p t = (Some v, p)"
    using map_of_eq_None_iff [of kvs "key t"] by (auto simp: get_def)
  have b: "paramsP p = Array xs \<longrightarrow>
        get p t = (if indexP p < length xs then Some (xs ! indexP p) else None,
                   p\<lparr>indexP := Suc (indexP p)\<rparr>)"
    by (simp add: get_def)
  have c: "paramsP (paramsF fm) = Array xs \<and> Suc (indexP (paramsF fm)) < length xs \<longrightarrow>
        fst (formatPlaceholder (snd (formatPlaceholder fm t q)) t' (fst (formatPlaceholder fm t q)))
          = q @ xs ! indexP (paramsF fm) @ '' '' @ xs ! Suc (indexP (paramsF fm)) @ '' ''"
    by (simp add: formatPlaceholder_def get_def jsToString_def Let_def)
  have d: "paramsP p = Record kvs \<and> map_of kvs (key t) = None \<longrightarrow> get p t = (Some (value t), p)"
    using map_of_eq_None_iff [of kvs "key t"] by (auto simp: get_def)
  have e: "get (newParams None) t = (Some (value t), newParams None)"
    by (simp add: get_def newParams_def)
  have f: "formatText (exampleFormatter (Some (Array [''1'', ''2'']))) ''a = ? AND b = ?''
         = Some (Inr ''a = 1\<newline>AND b = 2'')"
    by code_simp
  from a b c d e f show ?thesis by blast
qed

theorem placeholder_resolution_witness:
  "get \<lparr>paramsP = Record [(''name'', ''Bob'')], indexP = 0\<rparr> \<lparr>type = PLACEHOLDER, value = ''@name'', key = ''name''\<rparr>
     = (Some ''Bob'', \<lparr>paramsP = Record [(''name'', ''Bob'')], indexP = 0\<rparr>)
   \<and> get \<lparr>paramsP = Array [''1'', ''2''], indexP = 1\<rparr> \<lparr>type = PLACEHOLDER, value = ''?7'', key = ''7''\<rparr>
     = (Some ''2'', \<lparr>paramsP = Array [''1'', ''2''], indexP = 2\<rparr>)
   \<and> get \<lparr>paramsP = Record [(''name'', ''Bob'')], indexP = 0\<rparr> \<lparr>type = PLACEHOLDER, value = '':id'', key = ''id''\<rparr>
     = (Some '':id'', \<lparr>paramsP = Record [(''name'', ''Bob'')], indexP = 0\<rparr>)"
  using placeholder_resolution
    [of "\<lparr>paramsP = Record [(''name'', ''Bob'')], indexP = 0\<rparr>" "[(''name'', ''Bob'')]"
        "\<lparr>type = PLACEHOLDER, value = ''@name'', key = ''name''\<rparr>" "''Bob''" "[]"]
    placeholder_resolution
    [of "\<lparr>paramsP = Array [''1'', ''2''], indexP = 1\<rparr>" "[]"
        "\<lparr>type = PLACEHOLDER, value = ''?7'', key = ''7''\<rparr>" "[]" "[''1'', ''2'']"]
    placeholder_resolution
    [of "\<lparr>paramsP = Record [(''name'', ''Bob'')], indexP = 0\<rparr>" "[(''name'', ''Bob'')]"
        "\<lparr>type = PLACEHOLDER, value = '':id'', key = ''id''\<rparr>" "[]" "[]"]
  by simp

text \<open>
  C10. With an ordered sequence as the parameter source, the lookup returns the element
  at the running counter for every placeholder and never the text of the token; once the
  counter is behind the end of the sequence the lookup returns \<open>undefined\<close>, and the
  Printer writes that instead of the placeholder.
\<close>

theorem sequence_lookup_exhausted:
  "paramsP (paramsF fm) = Array xs \<Longrightarrow>
   fst (get (paramsF fm) t) = (if indexP (paramsF fm) < length xs then Some (xs ! indexP (paramsF fm)) else None)
   \<and> (length xs \<le> indexP (paramsF fm) \<longrightarrow>
        fst (get (paramsF fm) t) = None
        \<and> fst (formatPlaceholder fm t q) = q @ ''undefined '')"
  by (simp add: get_def formatPlaceholder_def jsToString_def Let_def)

theorem sequence_lookup_exhausted_witness:
  "formatText (exampleFormatter (Some (Array [''1'']))) ''? ?'' = Some (Inr ''1 undefined'')
   \<and> fst (formatPlaceholder ((exampleFormatter (Some (Array [''1''])))\<lparr>paramsF := \<lparr>paramsP = Array [''1''], indexP = 1\<rparr>\<rparr>)
            \<lparr>type = PLACEHOLDER, value = ''?'', key = []\<rparr> ''1 '') = ''1 undefined ''"
proof -
  have a: "formatText (exampleFormatter (Some (Array [''1'']))) ''? ?'' = Some (Inr ''1 undefined'')"
    by code_simp
  have b: "paramsP (paramsF ((exampleFormatter (Some (Array [''1''])))\<lparr>paramsF := \<lparr>paramsP = Array [''1''], indexP = 1\<rparr>\<rparr>)) = Array [''1'']"
    by simp
  show ?thesis
    using a sequence_lookup_exhausted [OF b, of "\<lparr>type = PLACEHOLDER, value = ''?'', key = []\<rparr>" "''1 ''"]
    by simp
qed

section \<open>Tokenizer: coverage, progress, exceptions\<close>




text \<open>
  C3. Without indexed placeholder types the pattern for indexed placeholders matches the
  empty string: at the input \<open>a\<close> the next token is a placeholder of length zero,
  whatever the previous token is, and the loop of \<open>tokenize\<close> never ends.
\<close>

theorem tokenize_no_progress:
  "getNextToken (newTokenizer (exampleConfig\<lparr>indexedPlaceholderTypes := []\<rparr>)) ''a'' None
     = Inr (Some \<lparr>type = PLACEHOLDER, value = [], key = []\<rparr>)
   \<and> tokenize (newTokenizer (exampleConfig\<lparr>indexedPlaceholderTypes := []\<rparr>)) ''a'' = None"
proof -
  have g: "\<And>prev. getNextToken (newTokenizer (exampleConfig\<lparr>indexedPlaceholderTypes := []\<rparr>)) ''a'' prev
     = Inr (Some \<lparr>type = PLACEHOLDER, value = [], key = []\<rparr>)"
    by code_simp
  have "tokenizeLoop (newTokenizer (exampleConfig\<lparr>indexedPlaceholderTypes := []\<rparr>)) ''a'' None [] = None"
    by (rule tokenizeLoop_stuck) (simp_all add: g)
  with g show ?thesis by (simp add: tokenize_def)
qed

text \<open>
  C4. A string-quoted placeholder that runs to the end of the input and ends in an opening
  parenthesis makes \<open>getEscapedPlaceholderKey\<close> compile a pattern that does not parse:
  \<open>format\<close> ends with the exception \<open>SyntaxError\<close>. On the empty string
  \<open>format\<close> returns the empty string, whatever the state of the Formatter.
\<close>

theorem format_raises:
  "formatText (exampleFormatter None) [CHR ''@'', dquote, CHR ''a'', CHR ''(''] = Some (Inl SyntaxError)
   \<and> format fm [] = Some (Inr ([], fm\<lparr>tokens := []\<rparr>))"
proof -
  have a: "formatText (exampleFormatter None) [CHR ''@'', dquote, CHR ''a'', CHR ''(''] = Some (Inl SyntaxError)"
    by code_simp
  have "tokenize (tokenizer fm) [] = Some (Inr [])"
    unfolding tokenize_def by (subst tokenizeLoop.simps) simp
  then have "format fm [] = Some (Inr ([], fm\<lparr>tokens := []\<rparr>))"
    by (simp add: format_def getFormattedQueryFromTokens_def trim_def trimEnd_def)
  with a show ?thesis by blast
qed

section \<open>The dot rule\<close>

text \<open>
  C5, amended. In the tokens that \<open>tokenize\<close> returns, a token that directly follows a
  token whose text is a bare dot is never a reserved word of any class: the loop hands
  the token it has just made to the next round, and reserved-word matching is skipped
  after a dot. On an input \<open>word.word2\<close>, where the first token has the length of
  \<open>word\<close> and the dot is an operator token, \<open>word2\<close> (a run of word characters to the
  end of the input) is a bare word token when none of the matchers that come before the
  reserved words (whitespace, comment, string, bracket, placeholder, number) matches it.
\<close>

theorem dot_rule:
  assumes "literalConfig c"
  shows "(tokenize (newTokenizer c) input = Some (Inr ts) \<longrightarrow> dotRule None ts)
    \<and> (getNextToken (newTokenizer c) (w1 @ ''.'' @ w2) None = Inr (Some t1)
         \<and> length (value t1) = length w1
         \<and> getNextToken (newTokenizer c) (''.'' @ w2) (Some t1)
             = Inr (Some \<lparr>type = OPERATOR, value = ''.'', key = []\<rparr>)
         \<and> w2 \<noteq> [] \<and> list_all (\<lambda>d. isWordChar d \<or> d \<in> set (concat (specialWordChars c))) w2
         \<and> getWhitespaceToken (newTokenizer c) w2 = None
         \<and> getCommentToken (newTokenizer c) w2 = None
         \<and> getStringToken (newTokenizer c) w2 = None
         \<and> getOpenParenToken (newTokenizer c) w2 = None
         \<and> getCloseParenToken (newTokenizer c) w2 = None
         \<and> getPlaceholderToken (newTokenizer c) w2 = Inr None
         \<and> getNumberToken (newTokenizer c) w2 = None
         \<longrightarrow> tokenize (newTokenizer c) (w1 @ ''.'' @ w2)
               = Some (Inr [t1, \<lparr>type = OPERATOR, value = ''.'', key = []\<rparr>,
                            \<lparr>type = WORD, value = w2, key = []\<rparr>]))"
proof -
  let ?tk = "newTokenizer c"
  let ?dot = "\<lparr>type = OPERATOR, value = ''.'', key = []\<rparr>"
  let ?word = "\<lparr>type = WORD, value = w2, key = []\<rparr>"
  let ?P = "\<lambda>d. isWordChar d \<or> d \<in> set (concat (specialWordChars c))"
  have w: "WHITESPACE_REGEX ?tk = whitespaceRegex" and o: "OPERATOR_REGEX ?tk = operatorRegex"
    by (simp_all add: newTokenizer_def)
  have a: "tokenize ?tk input = Some (Inr ts) \<longrightarrow> dotRule None ts"
  proof
    assume "tokenize ?tk input = Some (Inr ts)"
    then have "tokenizeLoop ?tk input None [] = Some (Inr ts)" by (simp add: tokenize_def)
    from tokenizeLoop_result [OF this w o] show "dotRule None ts" by auto
  qed
  have b: "getNextToken ?tk (w1 @ ''.'' @ w2) None = Inr (Some t1)
         \<and> length (value t1) = length w1
         \<and> getNextToken ?tk (''.'' @ w2) (Some t1) = Inr (Some ?dot)
         \<and> w2 \<noteq> [] \<and> list_all ?P w2
         \<and> getWhitespaceToken ?tk w2 = None \<and> getCommentToken ?tk w2 = None
         \<and> getStringToken ?tk w2 = None \<and> getOpenParenToken ?tk w2 = None
         \<and> getCloseParenToken ?tk w2 = None \<and> getPlaceholderToken ?tk w2 = Inr None
         \<and> getNumberToken ?tk w2 = None
         \<longrightarrow> tokenize ?tk (w1 @ ''.'' @ w2) = Some (Inr [t1, ?dot, ?word])"
  proof (intro impI, elim conjE)
    assume g1: "getNextToken ?tk (w1 @ ''.'' @ w2) None = Inr (Some t1)"
      and l1: "length (value t1) = length w1"
      and g2: "getNextToken ?tk (''.'' @ w2) (Some t1) = Inr (Some ?dot)"
      and ne: "w2 \<noteq> []" and wc: "list_all ?P w2"
      and n: "getWhitespaceToken ?tk w2 = None" "getCommentToken ?tk w2 = None"
        "getStringToken ?tk w2 = None" "getOpenParenToken ?tk w2 = None"
        "getCloseParenToken ?tk w2 = None" "getPlaceholderToken ?tk w2 = Inr None"
        "getNumberToken ?tk w2 = None"
    from ne obtain d ds where w2: "w2 = d # ds" by (cases w2) auto
    from wc w2 have d: "?P d" by simp
    from wc have tw: "takeWhile ?P w2 = w2" by (simp add: list_all_iff)
    have none: "getReservedWordToken ?tk w2 (Some ?dot) = None"
      by (simp add: getReservedWordToken_def)
    from word_match [of ?P d ds] d w2 tw
    have "getWordToken ?tk w2 = Some ?word"
      by (simp add: getWordToken_def getTokenOnFirstMatch_def createWordRegex_def newTokenizer_def)
    with n none have g3: "getNextToken ?tk w2 (Some ?dot) = Inr (Some ?word)"
      by (simp add: getNextToken_def orElseE_def)
    have s4: "tokenizeLoop ?tk [] (Some ?word) [t1, ?dot, ?word] = Some (Inr [t1, ?dot, ?word])"
      by (subst tokenizeLoop.simps) simp
    have s3: "tokenizeLoop ?tk w2 (Some ?dot) [t1, ?dot] = Some (Inr [t1, ?dot, ?word])"
      using ne g3 s4 by (subst tokenizeLoop.simps) simp
    have s2: "tokenizeLoop ?tk (''.'' @ w2) (Some t1) [t1] = Some (Inr [t1, ?dot, ?word])"
      using g2 s3 by (subst tokenizeLoop.simps) simp
    have "tokenizeLoop ?tk (w1 @ ''.'' @ w2) None [] = Some (Inr [t1, ?dot, ?word])"
      using g1 l1 s2 by (subst tokenizeLoop.simps) simp
    then show "tokenize ?tk (w1 @ ''.'' @ w2) = Some (Inr [t1, ?dot, ?word])"
      by (simp add: tokenize_def)
  qed
  from a b show ?thesis by blast
qed

theorem dot_rule_witness:
  "tokenize (newTokenizer exampleConfig) ''t.from''
     = Some (Inr [\<lparr>type = WORD, value = ''t'', key = []\<rparr>,
                  \<lparr>type = OPERATOR, value = ''.'', key = []\<rparr>,
                  \<lparr>type = WORD, value = ''from'', key = []\<rparr>])
   \<and> dotRule None [\<lparr>type = WORD, value = ''t'', key = []\<rparr>,
                    \<lparr>type = OPERATOR, value = ''.'', key = []\<rparr>,
                    \<lparr>type = WORD, value = ''from'', key = []\<rparr>]
   \<and> tokenize (newTokenizer exampleConfig) ''from''
     = Some (Inr [\<lparr>type = RESERVED_TOPLEVEL, value = ''FROM'', key = []\<rparr>])"
proof -
  have l: "literalConfig exampleConfig" by code_simp
  have g: "getNextToken (newTokenizer exampleConfig) (''t'' @ ''.'' @ ''from'') None
      = Inr (Some \<lparr>type = WORD, value = ''t'', key = []\<rparr>)"
    "getNextToken (newTokenizer exampleConfig) (''.'' @ ''from'') (Some \<lparr>type = WORD, value = ''t'', key = []\<rparr>)
      = Inr (Some \<lparr>type = OPERATOR, value = ''.'', key = []\<rparr>)"
    by code_simp+
  have n: "getWhitespaceToken (newTokenizer exampleConfig) ''from'' = None"
    "getCommentToken (newTokenizer exampleConfig) ''from'' = None"
    "getStringToken (newTokenizer exampleConfig) ''from'' = None"
    "getOpenParenToken (newTokenizer exampleConfig) ''from'' = None"
    "getCloseParenToken (newTokenizer exampleConfig) ''from'' = None"
    "getPlaceholderToken (newTokenizer exampleConfig) ''from'' = Inr None"
    "getNumberToken (newTokenizer exampleConfig) ''from'' = None"
    by code_simp+
  have wc: "list_all (\<lambda>d. isWordChar d \<or> d \<in> set (concat (specialWordChars exampleConfig))) ''from''"
    by code_simp
  have r: "tokenize (newTokenizer exampleConfig) ''from''
     = Some (Inr [\<lparr>type = RESERVED_TOPLEVEL, value = ''FROM'', key = []\<rparr>])"
    by code_simp
  from dot_rule [OF l, of "''t.from''" "[\<lparr>type = WORD, value = ''t'', key = []\<rparr>,
        \<lparr>type = OPERATOR, value = ''.'', key = []\<rparr>, \<lparr>type = WORD, value = ''from'', key = []\<rparr>]"
      "''t''" "''from''" "\<lparr>type = WORD, value = ''t'', key = []\<rparr>"] g n wc
  have "tokenize (newTokenizer exampleConfig) ''t.from''
     = Some (Inr [\<lparr>type = WORD, value = ''t'', key = []\<rparr>,
                  \<lparr>type = OPERATOR, value = ''.'', key = []\<rparr>,
                  \<lparr>type = WORD, value = ''from'', key = []\<rparr>])
   \<and> dotRule None [\<lparr>type = WORD, value = ''t'', key = []\<rparr>,
                    \<lparr>type = OPERATOR, value = ''.'', key = []\<rparr>,
                    \<lparr>type = WORD, value = ''from'', key = []\<rparr>]"
    by simp
  with r show ?thesis by blast
qed

text \<open>
  C5, as stated, fails: \<open>END\<close> is a reserved word and also a closing bracket keyword, and
  brackets are matched before reserved words and words, so after the dot in \<open>t.end\<close> the
  token is a closing bracket, not a bare word.
\<close>

theorem dot_rule_bracket_keyword:
  "tokenize (newTokenizer exampleConfig) ''t.end''
     = Some (Inr [\<lparr>type = WORD, value = ''t'', key = []\<rparr>,
                  \<lparr>type = OPERATOR, value = ''.'', key = []\<rparr>,
                  \<lparr>type = CLOSE_PAREN, value = ''END'', key = []\<rparr>])
   \<and> ''END'' \<in> set (reservedWords exampleConfig)"
  by code_simp

section \<open>The comma rule\<close>

text \<open>
  C6, amended. A comma is written after the output is trimmed, followed by one blank. When
  an inline block is active, or the remembered reserved word is \<open>LIMIT\<close> in any letter
  case, nothing follows; otherwise the blank is replaced by a newline and the
  current indent. The remembered reserved word is the most recent reserved word of any
  class, toplevel, newline or plain: each of them replaces it, and no other token does.
\<close>

theorem comma_rule:
  "value t = '','' \<Longrightarrow>
     formatComma fm t q =
       (if isActive (inlineBlock fm) \<or> toUpperCase (value (previousReservedWord fm)) = ''LIMIT''
        then trimTrailingWhitespace fm q @ '', ''
        else trimTrailingWhitespace fm q @ '','' @ [newline] @ getIndent (indentation fm))
     \<and> previousReservedWord (snd (formatToken fm t' i q))
         = (if type t' \<in> {RESERVED_TOPLEVEL, RESERVED_NEWLINE, RESERVED} then t'
            else previousReservedWord fm)"
proof -
  assume v: "value t = '',''"
  have a: "formatComma fm t q =
       (if isActive (inlineBlock fm) \<or> toUpperCase (value (previousReservedWord fm)) = ''LIMIT''
        then trimTrailingWhitespace fm q @ '', ''
        else trimTrailingWhitespace fm q @ '','' @ [newline] @ getIndent (indentation fm))"
    using v limit_match [of "value (previousReservedWord fm)"]
      trimEnd_comma [of "trimTrailingWhitespace fm q"]
    by (auto simp: formatComma_def Let_def addNewline_def)
  have b: "previousReservedWord (snd (formatToken fm t' i q))
         = (if type t' \<in> {RESERVED_TOPLEVEL, RESERVED_NEWLINE, RESERVED} then t'
            else previousReservedWord fm)"
    by (rule formatToken_memory)
  from a b show ?thesis by blast
qed

theorem comma_rule_witness:
  "formatComma ((exampleFormatter None)\<lparr>previousReservedWord := \<lparr>type = RESERVED_TOPLEVEL, value = ''Limit'', key = []\<rparr>\<rparr>)
      \<lparr>type = OPERATOR, value = '','', key = []\<rparr> ''LIMIT 1 '' = ''LIMIT 1, ''
   \<and> formatComma ((exampleFormatter None)\<lparr>previousReservedWord := \<lparr>type = RESERVED, value = ''AS'', key = []\<rparr>\<rparr>)
      \<lparr>type = OPERATOR, value = '','', key = []\<rparr> ''LIMIT 1 AS x '' = ''LIMIT 1 AS x,\<newline>''"
proof -
  have v: "value \<lparr>type = OPERATOR, value = '','', key = []\<rparr> = '',''" by simp
  have t: "\<And>p s. trimTrailingWhitespace ((exampleFormatter None)\<lparr>previousReservedWord := p\<rparr>) s = trimEnd s"
    by (simp add: trimTrailingWhitespace_def previousNonWhitespaceToken_def
          previousNonWhitespaceFrom.simps previousToken_def exampleFormatter_def newFormatter_def)
  have e: "trimEnd ''LIMIT 1 '' = ''LIMIT 1''" "trimEnd ''LIMIT 1 AS x '' = ''LIMIT 1 AS x''"
    by code_simp+
  have u: "toUpperCase ''Limit'' = ''LIMIT''" "toUpperCase ''AS'' \<noteq> ''LIMIT''" by code_simp+
  have i: "getIndent (indentation (exampleFormatter None)) = []"
    "\<not> isActive (inlineBlock (exampleFormatter None))"
    by (simp_all add: exampleFormatter_def newFormatter_def newIndentation_def getIndent_def
          isActive_def newInlineBlock_def)
  show ?thesis
    using comma_rule [OF v, of "(exampleFormatter None)\<lparr>previousReservedWord := \<lparr>type = RESERVED_TOPLEVEL, value = ''Limit'', key = []\<rparr>\<rparr>" "''LIMIT 1 ''"
          "\<lparr>type = OPERATOR, value = '','', key = []\<rparr>" 0, THEN conjunct1]
      comma_rule [OF v, of "(exampleFormatter None)\<lparr>previousReservedWord := \<lparr>type = RESERVED, value = ''AS'', key = []\<rparr>\<rparr>" "''LIMIT 1 AS x ''"
          "\<lparr>type = OPERATOR, value = '','', key = []\<rparr>" 0, THEN conjunct1]
      t e u i
    by (simp add: newline_def)
qed

text \<open>
  C6, as stated, fails: in \<open>limit 1 as x, y\<close> the most recent toplevel or newline reserved
  word before the comma is \<open>LIMIT\<close>, and the comma is followed by a newline, because the
  plain reserved word \<open>AS\<close> has replaced \<open>LIMIT\<close> in the memory. Without \<open>AS\<close> it is not.
\<close>

theorem comma_after_plain_reserved_word:
  "formatText (exampleFormatter None) ''limit 1 as x, y'' = Some (Inr ''LIMIT\<newline>  1 AS x,\<newline>  y'')
   \<and> formatText (exampleFormatter None) ''limit 1, y'' = Some (Inr ''LIMIT\<newline>  1, y'')"
  by code_simp

section \<open>State across calls of format\<close>

text \<open>
  C2, as stated, fails: \<open>format\<close> does not reset the state that the constructor created.
  Two calls in a row with the same query on one Formatter return different strings: with
  the parameters 1 and 2 the placeholder is 1 in the first call and 2 in the second; the
  comma of the second call finds the \<open>LIMIT\<close> that the first call remembered; and the
  second call starts inside the bracket that the first call left open, one indent
  deeper.
\<close>

theorem format_twice_differs:
  "formatTwice (exampleFormatter (Some (Array [''1'', ''2'']))) ''?'' = Some (''1'', ''2'')
   \<and> formatTwice (exampleFormatter None) ''a, b limit 1''
       = Some (''a,\<newline>b\<newline>LIMIT\<newline>  1'', ''a, b\<newline>LIMIT\<newline>  1'')
   \<and> formatTwice (exampleFormatter None) ''(a'' = Some (''(\<newline>  a'', ''(\<newline>    a'')"
  by code_simp

text \<open>
  C2, amended. The state is fresh when the constructor returns: counter 0, empty indent
  stack, no inline block, empty reserved-word memory. A call of \<open>format\<close> replaces the
  token buffer by the tokens of its query and starts from the state it finds; it resets
  none of the four pieces. When it returns, the remembered reserved word is the last
  reserved word of the query, or the one remembered before if the query has none; with an
  ordered sequence of parameters the counter has advanced by the number of placeholders
  of the query; the indent stack and the inline-block flag are what the brackets and the
  toplevel reserved words of the query make of the stack and the flag found at the
  start, so they are the ones found at the start when the query has neither. So a first
  call on a new Formatter runs with fresh state, and a later call continues from the
  state the call before it left.
\<close>

theorem format_keeps_state:
  "indexP (paramsF (newFormatter mx c tk)) = 0
   \<and> indentTypes (indentation (newFormatter mx c tk)) = []
   \<and> \<not> isActive (inlineBlock (newFormatter mx c tk))
   \<and> previousReservedWord (newFormatter mx c tk) = \<lparr>type = [], value = [], key = []\<rparr>
   \<and> (format fm q = Some (Inr (out, fm')) \<longrightarrow>
        tokenize (tokenizer fm) q = Some (Inr (tokens fm'))
        \<and> previousReservedWord fm' = lastReservedWord (previousReservedWord fm) (tokens fm')
        \<and> paramsP (paramsF fm') = paramsP (paramsF fm)
        \<and> (\<forall>xs. paramsP (paramsF fm) = Array xs \<longrightarrow>
              indexP (paramsF fm')
                = indexP (paramsF fm) + length (filter (\<lambda>t. type t = PLACEHOLDER) (tokens fm')))
        \<and> (indentation fm', inlineBlock fm')
             = printerState (indentation fm, inlineBlock fm) (tokens fm') (tokens fm') 0
        \<and> (list_all (\<lambda>t. type t \<notin> set [RESERVED_TOPLEVEL, OPEN_PAREN, CLOSE_PAREN]) (tokens fm')
              \<longrightarrow> indentation fm' = indentation fm \<and> inlineBlock fm' = inlineBlock fm))"
proof -
  have a: "indexP (paramsF (newFormatter mx c tk)) = 0
   \<and> indentTypes (indentation (newFormatter mx c tk)) = []
   \<and> \<not> isActive (inlineBlock (newFormatter mx c tk))
   \<and> previousReservedWord (newFormatter mx c tk) = \<lparr>type = [], value = [], key = []\<rparr>"
    by (simp add: newFormatter_def newParams_def newIndentation_def newInlineBlock_def isActive_def)
  have b: "format fm q = Some (Inr (out, fm')) \<longrightarrow>
        tokenize (tokenizer fm) q = Some (Inr (tokens fm'))
        \<and> previousReservedWord fm' = lastReservedWord (previousReservedWord fm) (tokens fm')
        \<and> paramsP (paramsF fm') = paramsP (paramsF fm)
        \<and> (\<forall>xs. paramsP (paramsF fm) = Array xs \<longrightarrow>
              indexP (paramsF fm')
                = indexP (paramsF fm) + length (filter (\<lambda>t. type t = PLACEHOLDER) (tokens fm')))
        \<and> (indentation fm', inlineBlock fm')
             = printerState (indentation fm, inlineBlock fm) (tokens fm') (tokens fm') 0
        \<and> (list_all (\<lambda>t. type t \<notin> set [RESERVED_TOPLEVEL, OPEN_PAREN, CLOSE_PAREN]) (tokens fm')
              \<longrightarrow> indentation fm' = indentation fm \<and> inlineBlock fm' = inlineBlock fm)"
  proof
    assume f: "format fm q = Some (Inr (out, fm'))"
    then obtain ts where ts: "tokenize (tokenizer fm) q = Some (Inr ts)"
      and r: "fm' = snd (forEachToken (fm\<lparr>tokens := ts\<rparr>) ts 0 [])"
      by (auto simp: format_def getFormattedQueryFromTokens_def Let_def
            split: option.splits sum.splits)
    from forEachToken_frame [of "fm\<lparr>tokens := ts\<rparr>" ts 0 "[]"] r
    have t: "tokens fm' = ts" by simp
    from forEachToken_state [of "fm\<lparr>tokens := ts\<rparr>" ts 0 "[]"] r t
    have s: "(indentation fm', inlineBlock fm')
        = printerState (indentation fm, inlineBlock fm) (tokens fm') (tokens fm') 0"
      by simp
    have i: "list_all (\<lambda>t. type t \<notin> set [RESERVED_TOPLEVEL, OPEN_PAREN, CLOSE_PAREN]) (tokens fm')
        \<longrightarrow> indentation fm' = indentation fm \<and> inlineBlock fm' = inlineBlock fm"
    proof
      assume "list_all (\<lambda>t. type t \<notin> set [RESERVED_TOPLEVEL, OPEN_PAREN, CLOSE_PAREN]) (tokens fm')"
      from printerState_idle [OF this, of "(indentation fm, inlineBlock fm)" "tokens fm'" 0] s
      show "indentation fm' = indentation fm \<and> inlineBlock fm' = inlineBlock fm" by simp
    qed
    from forEachToken_frame [of "fm\<lparr>tokens := ts\<rparr>" ts 0 "[]"] r ts t
    have "tokenize (tokenizer fm) q = Some (Inr (tokens fm'))
        \<and> previousReservedWord fm' = lastReservedWord (previousReservedWord fm) (tokens fm')
        \<and> paramsP (paramsF fm') = paramsP (paramsF fm)
        \<and> (\<forall>xs. paramsP (paramsF fm) = Array xs \<longrightarrow>
              indexP (paramsF fm')
                = indexP (paramsF fm) + length (filter (\<lambda>t. type t = PLACEHOLDER) (tokens fm')))"
      by simp
    with s i show "tokenize (tokenizer fm) q = Some (Inr (tokens fm'))
        \<and> previousReservedWord fm' = lastReservedWord (previousReservedWord fm) (tokens fm')
        \<and> paramsP (paramsF fm') = paramsP (paramsF fm)
        \<and> (\<forall>xs. paramsP (paramsF fm) = Array xs \<longrightarrow>
              indexP (paramsF fm')
                = indexP (paramsF fm) + length (filter (\<lambda>t. type t = PLACEHOLDER) (tokens fm')))
        \<and> (indentation fm', inlineBlock fm')
             = printerState (indentation fm, inlineBlock fm) (tokens fm') (tokens fm') 0
        \<and> (list_all (\<lambda>t. type t \<notin> set [RESERVED_TOPLEVEL, OPEN_PAREN, CLOSE_PAREN]) (tokens fm')
              \<longrightarrow> indentation fm' = indentation fm \<and> inlineBlock fm' = inlineBlock fm)"
      by blast
  qed
  from a b show ?thesis by blast
qed

theorem format_keeps_state_witness:
  "format (exampleFormatter (Some (Array [''1'', ''2'']))) ''?'' = Some (Inr (''1'', afterFirstCall))
   \<and> indexP (paramsF (exampleFormatter (Some (Array [''1'', ''2''])))) = 0
   \<and> indexP (paramsF afterFirstCall) = 1
   \<and> tokens afterFirstCall = [\<lparr>type = PLACEHOLDER, value = ''?'', key = []\<rparr>]
   \<and> format (exampleFormatter None) ''('' = Some (Inr (''('', insideBracket))
   \<and> indentTypes (indentation (exampleFormatter None)) = []
   \<and> indentTypes (indentation insideBracket) = [Nesting]
   \<and> format insideBracket ''a''
       = Some (Inr (''a'', insideBracket\<lparr>tokens := [\<lparr>type = WORD, value = ''a'', key = []\<rparr>]\<rparr>))
   \<and> indentation (insideBracket\<lparr>tokens := [\<lparr>type = WORD, value = ''a'', key = []\<rparr>]\<rparr>)
       = indentation insideBracket
   \<and> formatText insideInline ''a, b'' = Some (Inr ''a, b'')
   \<and> formatText (exampleFormatter None) ''a, b'' = Some (Inr ''a,\<newline>b'')
   \<and> isActive (inlineBlock (insideInline\<lparr>tokens := [\<lparr>type = WORD, value = ''a'', key = []\<rparr>,
          \<lparr>type = OPERATOR, value = '','', key = []\<rparr>, \<lparr>type = WHITESPACE, value = '' '', key = []\<rparr>,
          \<lparr>type = WORD, value = ''b'', key = []\<rparr>], index := 3\<rparr>))"
proof -
  have d: "WORD \<notin> set [RESERVED_TOPLEVEL, OPEN_PAREN, CLOSE_PAREN]"
    by (simp add: tokenTypes_defs)
  have i: "indentTypes (indentation (exampleFormatter None)) = []"
    "indentTypes (indentation insideBracket) = [Nesting]"
    by (simp_all add: insideBracket_def exampleFormatter_def newFormatter_def newIndentation_def)
  from first_call
    format_keeps_state [of 50 "\<lparr>indent = None, language = None, params = Some (Array [''1'', ''2''])\<rparr>"
      "newTokenizer exampleConfig" "exampleFormatter (Some (Array [''1'', ''2'']))" "''?''" "''1''" afterFirstCall]
  have a: "format (exampleFormatter (Some (Array [''1'', ''2'']))) ''?'' = Some (Inr (''1'', afterFirstCall))
   \<and> indexP (paramsF (exampleFormatter (Some (Array [''1'', ''2''])))) = 0
   \<and> indexP (paramsF afterFirstCall) = 1
   \<and> tokens afterFirstCall = [\<lparr>type = PLACEHOLDER, value = ''?'', key = []\<rparr>]"
    by (simp add: afterFirstCall_def exampleFormatter_def)
  from inside_call d
    format_keeps_state [of 50 "\<lparr>indent = None, language = None, params = None\<rparr>"
      "newTokenizer exampleConfig" insideBracket "''a''" "''a''"
      "insideBracket\<lparr>tokens := [\<lparr>type = WORD, value = ''a'', key = []\<rparr>]\<rparr>"]
  have b: "indentation (insideBracket\<lparr>tokens := [\<lparr>type = WORD, value = ''a'', key = []\<rparr>]\<rparr>)
       = indentation insideBracket"
    by simp
  have e: "list_all (\<lambda>t. type t \<notin> set [RESERVED_TOPLEVEL, OPEN_PAREN, CLOSE_PAREN])
      [\<lparr>type = WORD, value = ''a'', key = []\<rparr>, \<lparr>type = OPERATOR, value = '','', key = []\<rparr>,
       \<lparr>type = WHITESPACE, value = '' '', key = []\<rparr>, \<lparr>type = WORD, value = ''b'', key = []\<rparr>]"
    by (simp add: tokenTypes_defs)
  have x: "isActive (inlineBlock insideInline)"
    by (simp add: insideInline_def isActive_def)
  from inline_call e x
    format_keeps_state [of 50 "\<lparr>indent = None, language = None, params = None\<rparr>"
      "newTokenizer exampleConfig" insideInline "''a, b''" "''a, b''"
      "insideInline\<lparr>tokens := [\<lparr>type = WORD, value = ''a'', key = []\<rparr>,
          \<lparr>type = OPERATOR, value = '','', key = []\<rparr>, \<lparr>type = WHITESPACE, value = '' '', key = []\<rparr>,
          \<lparr>type = WORD, value = ''b'', key = []\<rparr>], index := 3\<rparr>"]
  have c: "isActive (inlineBlock (insideInline\<lparr>tokens := [\<lparr>type = WORD, value = ''a'', key = []\<rparr>,
          \<lparr>type = OPERATOR, value = '','', key = []\<rparr>, \<lparr>type = WHITESPACE, value = '' '', key = []\<rparr>,
          \<lparr>type = WORD, value = ''b'', key = []\<rparr>], index := 3\<rparr>))"
    by simp
  have f: "formatText insideInline ''a, b'' = Some (Inr ''a, b'')"
    using inline_call by (simp add: formatText_def)
  have g: "formatText (exampleFormatter None) ''a, b'' = Some (Inr ''a,\<newline>b'')"
    by code_simp
  from a b c f g i bracket_call inside_call show ?thesis by blast
qed

section \<open>Placeholder keys\<close>

text \<open>
  C9, as stated, fails. The string grammar has two escapes for a quote, the doubled quote
  and the backslash, and the key derivation undoes the second only: the key of the
  placeholder \<open>@"a""b"\<close> keeps both quotes. And the prefix is not stripped, one
  character is: a prefix of two characters leaves its second character in the key.
\<close>

theorem placeholder_key_slices:
  "tokenize (newTokenizer exampleConfig) [CHR ''@'', dquote, CHR ''a'', dquote, dquote, CHR ''b'', dquote]
     = Some (Inr [\<lparr>type = PLACEHOLDER,
                    value = [CHR ''@'', dquote, CHR ''a'', dquote, dquote, CHR ''b'', dquote],
                    key = [CHR ''a'', dquote, dquote, CHR ''b'']\<rparr>])
   \<and> tokenize (newTokenizer (exampleConfig\<lparr>namedPlaceholderTypes := [''@@'']\<rparr>)) ''@@x''
     = Some (Inr [\<lparr>type = PLACEHOLDER, value = ''@@x'', key = ''@x''\<rparr>])"
  by code_simp

text \<open>
  C9, amended. With prefixes of one character: the key of an identifier-style named
  placeholder is the matched text without the prefix, a non-empty run of identifier
  characters; the key of an indexed placeholder is the run of digits after the prefix,
  empty when there is none. The key of a string-quoted named placeholder whose text is the
  prefix character, the opening quote, the content and the closing quote is the content
  with every backslash followed by the closing quote replaced by the quote; a doubled
  quote stays as it is, and a content without a backslash is the key unchanged.
\<close>

theorem placeholder_keys:
  "(namedPlaceholderTypes c \<noteq> [] \<and> list_all (\<lambda>p. length p = 1) (namedPlaceholderTypes c)
      \<and> getIdentNamedPlaceholderToken (newTokenizer c) input = Inr (Some t)
      \<longrightarrow> (\<exists>p \<in> set (namedPlaceholderTypes c). value t = p @ key t)
          \<and> key t \<noteq> [] \<and> list_all identChar (key t))
   \<and> (indexedPlaceholderTypes c \<noteq> [] \<and> list_all (\<lambda>p. length p = 1) (indexedPlaceholderTypes c)
      \<and> getIndexedPlaceholderToken (newTokenizer c) input = Inr (Some t)
      \<longrightarrow> (\<exists>p \<in> set (indexedPlaceholderTypes c). value t = p @ key t)
          \<and> list_all isDigit (key t))
   \<and> (getStringNamedPlaceholderToken tk input = Inr (Some t)
      \<and> value t = prefix # quote # content @ [q] \<and> (quote, q) \<in> set quotePairs
      \<longrightarrow> key t = unescapeQuote q content
          \<and> (backslash \<notin> set content \<longrightarrow> key t = content))"
proof -
  have a: "namedPlaceholderTypes c \<noteq> [] \<and> list_all (\<lambda>p. length p = 1) (namedPlaceholderTypes c)
      \<and> getIdentNamedPlaceholderToken (newTokenizer c) input = Inr (Some t)
      \<longrightarrow> (\<exists>p \<in> set (namedPlaceholderTypes c). value t = p @ key t)
          \<and> key t \<noteq> [] \<and> list_all identChar (key t)"
  proof (intro impI, elim conjE)
    assume ne: "namedPlaceholderTypes c \<noteq> []"
      and l: "list_all (\<lambda>p. length p = 1) (namedPlaceholderTypes c)"
      and g: "getIdentNamedPlaceholderToken (newTokenizer c) input = Inr (Some t)"
    from g obtain m where m: "rxMatch (createPlaceholderRegex (namedPlaceholderTypes c)
        (Plus (Sym identChar))) input = Some m" and v: "value t = m" and k: "key t = slice1 m"
      by (auto simp: getIdentNamedPlaceholderToken_def getPlaceholderTokenWithKey_def
            getTokenOnFirstMatch_def newTokenizer_def identChar_def [abs_def]
            split: option.splits)
    from rxMatch_prefixed [OF m ne, of "\<lambda>u. list_all identChar u \<and> u \<noteq> []"] ms_Plus_Sym
    obtain p u where p: "p \<in> set (namedPlaceholderTypes c)" "m = p @ u"
      "list_all identChar u" "u \<noteq> []" by blast
    from l p(1) have "length p = 1" by (simp add: list_all_iff)
    with p(2) k have "key t = u" by (simp add: slice1_def)
    with p v show "(\<exists>p \<in> set (namedPlaceholderTypes c). value t = p @ key t)
          \<and> key t \<noteq> [] \<and> list_all identChar (key t)" by auto
  qed
  have b: "indexedPlaceholderTypes c \<noteq> [] \<and> list_all (\<lambda>p. length p = 1) (indexedPlaceholderTypes c)
      \<and> getIndexedPlaceholderToken (newTokenizer c) input = Inr (Some t)
      \<longrightarrow> (\<exists>p \<in> set (indexedPlaceholderTypes c). value t = p @ key t)
          \<and> list_all isDigit (key t)"
  proof (intro impI, elim conjE)
    assume ne: "indexedPlaceholderTypes c \<noteq> []"
      and l: "list_all (\<lambda>p. length p = 1) (indexedPlaceholderTypes c)"
      and g: "getIndexedPlaceholderToken (newTokenizer c) input = Inr (Some t)"
    from g obtain m where m: "rxMatch (createPlaceholderRegex (indexedPlaceholderTypes c)
        (Star (Sym isDigit))) input = Some m" and v: "value t = m" and k: "key t = slice1 m"
      by (auto simp: getIndexedPlaceholderToken_def getPlaceholderTokenWithKey_def
            getTokenOnFirstMatch_def newTokenizer_def split: option.splits)
    from rxMatch_prefixed [OF m ne, of "list_all isDigit"] ms_Star_Sym
    obtain p u where p: "p \<in> set (indexedPlaceholderTypes c)" "m = p @ u" "list_all isDigit u"
      by blast
    from l p(1) have "length p = 1" by (simp add: list_all_iff)
    with p(2) k have "key t = u" by (simp add: slice1_def)
    with p v show "(\<exists>p \<in> set (indexedPlaceholderTypes c). value t = p @ key t)
          \<and> list_all isDigit (key t)" by auto
  qed
  have d: "getStringNamedPlaceholderToken tk input = Inr (Some t)
      \<and> value t = prefix # quote # content @ [q] \<and> (quote, q) \<in> set quotePairs
      \<longrightarrow> key t = unescapeQuote q content
          \<and> (backslash \<notin> set content \<longrightarrow> key t = content)"
  proof (intro impI, elim conjE)
    assume g: "getStringNamedPlaceholderToken tk input = Inr (Some t)"
      and v: "value t = prefix # quote # content @ [q]" and q: "(quote, q) \<in> set quotePairs"
    from g obtain t0 k0 where
      k0: "getEscapedPlaceholderKey (slice2m1 (value t0)) (sliceLast (value t0)) = Inr k0"
      and t0: "t = t0\<lparr>key := k0\<rparr>"
      by (auto simp: getStringNamedPlaceholderToken_def getPlaceholderTokenWithKey_def
            split: option.splits sum.splits)
    from k0 t0 have k: "getEscapedPlaceholderKey (slice2m1 (value t0)) (sliceLast (value t0)) = Inr (key t)"
      and v0: "value t = value t0" by simp_all
    from v v0 have s: "slice2m1 (value t0) = content" "sliceLast (value t0) = [q]"
      by (simp_all add: slice2m1_def sliceLast_def)
    from k s escapedQuoteRegex_closing [OF q] have u: "key t = unescapeQuote q content"
      by (simp add: getEscapedPlaceholderKey_def replaceAll_unescape)
    with unescapeQuote_id [of content q]
    show "key t = unescapeQuote q content \<and> (backslash \<notin> set content \<longrightarrow> key t = content)"
      by simp
  qed
  from a b d show ?thesis by blast
qed

theorem placeholder_keys_witness:
  "getIdentNamedPlaceholderToken (newTokenizer exampleConfig) ''@name = 1''
     = Inr (Some \<lparr>type = PLACEHOLDER, value = ''@name'', key = ''name''\<rparr>)
   \<and> getIndexedPlaceholderToken (newTokenizer exampleConfig) ''?12 ''
     = Inr (Some \<lparr>type = PLACEHOLDER, value = ''?12'', key = ''12''\<rparr>)
   \<and> getIndexedPlaceholderToken (newTokenizer exampleConfig) ''? ''
     = Inr (Some \<lparr>type = PLACEHOLDER, value = ''?'', key = []\<rparr>)
   \<and> getStringNamedPlaceholderToken (newTokenizer exampleConfig)
        [CHR ''@'', dquote, CHR ''a'', backslash, dquote, CHR ''b'', dquote]
     = Inr (Some \<lparr>type = PLACEHOLDER,
                   value = [CHR ''@'', dquote, CHR ''a'', backslash, dquote, CHR ''b'', dquote],
                   key = [CHR ''a'', dquote, CHR ''b'']\<rparr>)
   \<and> unescapeQuote dquote [CHR ''a'', backslash, dquote, CHR ''b''] = [CHR ''a'', dquote, CHR ''b'']
   \<and> list_all identChar ''name'' \<and> list_all isDigit ''12''"
proof -
  have e: "getIdentNamedPlaceholderToken (newTokenizer exampleConfig) ''@name = 1''
     = Inr (Some \<lparr>type = PLACEHOLDER, value = ''@name'', key = ''name''\<rparr>)"
    "getIndexedPlaceholderToken (newTokenizer exampleConfig) ''?12 ''
     = Inr (Some \<lparr>type = PLACEHOLDER, value = ''?12'', key = ''12''\<rparr>)"
    "getIndexedPlaceholderToken (newTokenizer exampleConfig) ''? ''
     = Inr (Some \<lparr>type = PLACEHOLDER, value = ''?'', key = []\<rparr>)"
    "getStringNamedPlaceholderToken (newTokenizer exampleConfig)
        [CHR ''@'', dquote, CHR ''a'', backslash, dquote, CHR ''b'', dquote]
     = Inr (Some \<lparr>type = PLACEHOLDER,
                   value = [CHR ''@'', dquote, CHR ''a'', backslash, dquote, CHR ''b'', dquote],
                   key = [CHR ''a'', dquote, CHR ''b'']\<rparr>)"
    by code_simp+
  have c: "namedPlaceholderTypes exampleConfig \<noteq> []"
    "list_all (\<lambda>p. length p = 1) (namedPlaceholderTypes exampleConfig)"
    "indexedPlaceholderTypes exampleConfig \<noteq> []"
    "list_all (\<lambda>p. length p = 1) (indexedPlaceholderTypes exampleConfig)"
    "(dquote, dquote) \<in> set quotePairs"
    by (simp_all add: exampleConfig_def quotePairs_def)
  from placeholder_keys [of exampleConfig "''@name = 1''"
      "\<lparr>type = PLACEHOLDER, value = ''@name'', key = ''name''\<rparr>" "newTokenizer exampleConfig"
      "CHR ''@''" dquote "[]" dquote] e(1) c
  have i: "list_all identChar ''name''" by simp
  from placeholder_keys [of exampleConfig "''?12 ''"
      "\<lparr>type = PLACEHOLDER, value = ''?12'', key = ''12''\<rparr>" "newTokenizer exampleConfig"
      "CHR ''@''" dquote "[]" dquote] e(2) c
  have n: "list_all isDigit ''12''" by simp
  from placeholder_keys [of exampleConfig
      "[CHR ''@'', dquote, CHR ''a'', backslash, dquote, CHR ''b'', dquote]"
      "\<lparr>type = PLACEHOLDER,
         value = [CHR ''@'', dquote, CHR ''a'', backslash, dquote, CHR ''b'', dquote],
         key = [CHR ''a'', dquote, CHR ''b'']\<rparr>" "newTokenizer exampleConfig"
      "CHR ''@''" dquote "[CHR ''a'', backslash, dquote, CHR ''b'']" dquote] e(4) c
  have u: "unescapeQuote dquote [CHR ''a'', backslash, dquote, CHR ''b''] = [CHR ''a'', dquote, CHR ''b'']"
    by simp
  from e i n u show ?thesis by blast
qed

section \<open>Case canonicalization\<close>

text \<open>
  C8. For a configuration with plain ASCII keywords and an indent unit of whitespace:
  the text of every reserved-word token (plain, toplevel, newline) and of every bracket
  token is the upper-cased slice of the input at its place, whatever the case of the
  input, and upper-casing leaves it, and what the Printer writes for it, as it is; the
  text of a token of any other kind is the slice of the input unchanged. The output of
  \<open>format\<close> is made of these texts in order and of whitespace, and of nothing else:
  its characters other than whitespace are those of the token texts, upper-case for
  reserved words and brackets and in the case of the input for every other kind; and
  the text of every token that is neither whitespace, a comment nor a placeholder (a text
  that neither starts nor ends in whitespace) stands in the output as it is, with the
  whitespace inside a toplevel or newline reserved word made single blanks. (A
  whitespace token is not written, a comment is laid out again, and a placeholder is
  written as the parameter that \<open>Params.get\<close> returns, its own text when there is
  none; these are the rules of the Printer, and they change no letter case.)
\<close>

theorem case_canonicalization:
  assumes "literalConfig c" "tokenizer fm = newTokenizer c"
    "list_all isSpace (indentI (indentation fm))"
    "tokenize (newTokenizer c) q = Some (Inr ts)"
  shows "covers ts q
    \<and> list_all (\<lambda>t. upperCased (type t) \<longrightarrow>
                   toUpperCase (value t) = value t \<and> toUpperCase (written t) = written t) ts
    \<and> (\<exists>out. formatText fm q = Some (Inr out)
          \<and> visible out = visible (concat (printedTexts (paramsF fm) ts))
          \<and> list_all (\<lambda>t. type t \<notin> set [WHITESPACE, LINE_COMMENT, BLOCK_COMMENT, PLACEHOLDER]
                           \<and> value t \<noteq> [] \<and> \<not> isSpace (hd (value t)) \<and> \<not> isSpace (last (value t))
                         \<longrightarrow> occursIn (written t) out) ts)"
proof -
  have w: "WHITESPACE_REGEX (newTokenizer c) = whitespaceRegex"
    and o: "OPERATOR_REGEX (newTokenizer c) = operatorRegex"
    by (simp_all add: newTokenizer_def)
  from assms(4) have "tokenizeLoop (newTokenizer c) q None [] = Some (Inr ts)"
    by (simp add: tokenize_def)
  from tokenizeLoop_result [OF this w o] literalConfig_asciiUpper [OF assms(1)]
  have c: "covers ts q" by auto
  have u: "list_all (\<lambda>t. upperCased (type t) \<longrightarrow>
                   toUpperCase (value t) = value t \<and> toUpperCase (written t) = written t) ts"
    using c
  proof (induction ts arbitrary: q)
    case Nil
    show ?case by simp
  next
    case (Cons t ts)
    then have a: "tokenText t q" and b: "covers ts (drop (length (value t)) q)" by simp_all
    from a have "upperCased (type t) \<longrightarrow> toUpperCase (value t) = value t"
      unfolding tokenText_def by (metis toUpperCase_idem)
    with written_upper [of t] Cons.IH [OF b] show ?case by simp
  qed
  let ?r = "forEachToken (fm\<lparr>tokens := ts\<rparr>) ts 0 []"
  from assms(2,4) have f: "formatText fm q = Some (Inr (trim (fst ?r)))"
    by (simp add: formatText_def format_def getFormattedQueryFromTokens_def Let_def)
  from assms(3) have "list_all isSpace (indentI (indentation (fm\<lparr>tokens := ts\<rparr>)))" by simp
  from forEachToken_visible [OF this, of ts 0 "[]"]
  have v: "visible (trim (fst ?r)) = visible (concat (printedTexts (paramsF fm) ts))"
    by (simp add: visible_trim visible_simps(1))
  have k: "list_all (\<lambda>t. type t \<notin> set [WHITESPACE, LINE_COMMENT, BLOCK_COMMENT, PLACEHOLDER]
                           \<and> value t \<noteq> [] \<and> \<not> isSpace (hd (value t)) \<and> \<not> isSpace (last (value t))
                         \<longrightarrow> occursIn (written t) (trim (fst ?r))) ts"
    unfolding list_all_iff
  proof (intro ballI impI, elim conjE)
    fix t assume t: "t \<in> set ts"
      "type t \<notin> set [WHITESPACE, LINE_COMMENT, BLOCK_COMMENT, PLACEHOLDER]"
      "value t \<noteq> []" "\<not> isSpace (hd (value t))" "\<not> isSpace (last (value t))"
    from forEachToken_occurs [OF t, of "fm\<lparr>tokens := ts\<rparr>" 0 "[]"] written_ends [OF t(3,4,5)]
    show "occursIn (written t) (trim (fst ?r))" by (simp add: keep_trim)
  qed
  from f c u v k show ?thesis by blast
qed

theorem case_canonicalization_witness:
  "tokenize (newTokenizer exampleConfig) ''from T''
     = Some (Inr [\<lparr>type = RESERVED_TOPLEVEL, value = ''FROM'', key = []\<rparr>,
                  \<lparr>type = WHITESPACE, value = '' '', key = []\<rparr>,
                  \<lparr>type = WORD, value = ''T'', key = []\<rparr>])
   \<and> formatText (exampleFormatter None) ''from T'' = Some (Inr ''FROM\<newline>  T'')
   \<and> visible ''FROM\<newline>  T'' = ''FROMT''
   \<and> visible (concat (printedTexts (paramsF (exampleFormatter None))
        [\<lparr>type = RESERVED_TOPLEVEL, value = ''FROM'', key = []\<rparr>,
         \<lparr>type = WHITESPACE, value = '' '', key = []\<rparr>,
         \<lparr>type = WORD, value = ''T'', key = []\<rparr>])) = ''FROMT''
   \<and> covers [\<lparr>type = RESERVED_TOPLEVEL, value = ''FROM'', key = []\<rparr>,
              \<lparr>type = WHITESPACE, value = '' '', key = []\<rparr>,
              \<lparr>type = WORD, value = ''T'', key = []\<rparr>] ''from T''
   \<and> occursIn ''FROM'' ''FROM\<newline>  T'' \<and> occursIn ''T'' ''FROM\<newline>  T''"
proof -
  have l: "literalConfig exampleConfig" by code_simp
  have k: "tokenizer (exampleFormatter None) = newTokenizer exampleConfig"
    by (simp add: exampleFormatter_def newFormatter_def)
  have s: "list_all isSpace (indentI (indentation (exampleFormatter None)))"
    by (simp add: exampleFormatter_def newFormatter_def newIndentation_def isSpace_def)
  have t: "tokenize (newTokenizer exampleConfig) ''from T''
     = Some (Inr [\<lparr>type = RESERVED_TOPLEVEL, value = ''FROM'', key = []\<rparr>,
                  \<lparr>type = WHITESPACE, value = '' '', key = []\<rparr>,
                  \<lparr>type = WORD, value = ''T'', key = []\<rparr>])"
    by code_simp
  have f: "formatText (exampleFormatter None) ''from T'' = Some (Inr ''FROM\<newline>  T'')"
    by code_simp
  have v: "visible ''FROM\<newline>  T'' = ''FROMT''" by code_simp
  have x: "written \<lparr>type = RESERVED_TOPLEVEL, value = ''FROM'', key = []\<rparr> = ''FROM''"
    "written \<lparr>type = WORD, value = ''T'', key = []\<rparr> = ''T''"
    "RESERVED_TOPLEVEL \<notin> set [WHITESPACE, LINE_COMMENT, BLOCK_COMMENT, PLACEHOLDER]"
    "WORD \<notin> set [WHITESPACE, LINE_COMMENT, BLOCK_COMMENT, PLACEHOLDER]"
    "\<not> isSpace (CHR ''F'')" "\<not> isSpace (CHR ''M'')" "\<not> isSpace (CHR ''T'')"
    by code_simp+
  from case_canonicalization [OF l k s t] f v x
  have "visible (concat (printedTexts (paramsF (exampleFormatter None))
        [\<lparr>type = RESERVED_TOPLEVEL, value = ''FROM'', key = []\<rparr>,
         \<lparr>type = WHITESPACE, value = '' '', key = []\<rparr>,
         \<lparr>type = WORD, value = ''T'', key = []\<rparr>])) = ''FROMT''
   \<and> covers [\<lparr>type = RESERVED_TOPLEVEL, value = ''FROM'', key = []\<rparr>,
              \<lparr>type = WHITESPACE, value = '' '', key = []\<rparr>,
              \<lparr>type = WORD, value = ''T'', key = []\<rparr>] ''from T''
   \<and> occursIn ''FROM'' ''FROM\<newline>  T'' \<and> occursIn ''T'' ''FROM\<newline>  T''"
    by auto
  with t f v show ?thesis by blast
qed

end
